theory Spec2Isabelle
  imports Complex_Main "HOL-Library.AList" "HOL-Library.Multiset"
begin

section \<open>JavaScript values\<close>

text \<open>
  A JavaScript number: a finite value, the two infinities, or NaN.  Finite arithmetic is
  exact here (rationals): IEEE rounding and the sign of zero are not modelled.  The
  comparisons, \<open>Math.min\<close>, \<open>Math.max\<close>, \<open>isFinite\<close> and \<open>isNaN\<close> do not round
  in JavaScript either, so they are modelled exactly.
\<close>

datatype jsnum = Fin rat | PInf | NInf | NaN

text \<open>The relational operator \<open>a < b\<close> on numbers: false as soon as one side is NaN.\<close>

fun js_lt :: "jsnum \<Rightarrow> jsnum \<Rightarrow> bool" where
  "js_lt NaN _ = False"
| "js_lt _ NaN = False"
| "js_lt (Fin a) (Fin b) = (a < b)"
| "js_lt (Fin _) PInf = True"
| "js_lt (Fin _) NInf = False"
| "js_lt PInf _ = False"
| "js_lt NInf NInf = False"
| "js_lt NInf _ = True"

text \<open>\<open>Math.max(a, b)\<close> and \<open>Math.min(a, b)\<close>: NaN as soon as one argument is NaN.\<close>

fun js_max :: "jsnum \<Rightarrow> jsnum \<Rightarrow> jsnum" where
  "js_max NaN _ = NaN"
| "js_max _ NaN = NaN"
| "js_max a b = (if js_lt a b then b else a)"

fun js_min :: "jsnum \<Rightarrow> jsnum \<Rightarrow> jsnum" where
  "js_min NaN _ = NaN"
| "js_min _ NaN = NaN"
| "js_min a b = (if js_lt b a then b else a)"

fun isFinite :: "jsnum \<Rightarrow> bool" where
  "isFinite (Fin _) = True"
| "isFinite _ = False"

fun isNaN :: "jsnum \<Rightarrow> bool" where
  "isNaN NaN = True"
| "isNaN _ = False"

text \<open>The sign of a number that is not NaN, for the products with an infinity.\<close>

fun js_sign :: "jsnum \<Rightarrow> int" where
  "js_sign (Fin a) = (if a < 0 then - 1 else if a = 0 then 0 else 1)"
| "js_sign PInf = 1"
| "js_sign NInf = - 1"
| "js_sign NaN = 0"

text \<open>\<open>a * b\<close>: zero times an infinity is NaN.\<close>

fun js_mul :: "jsnum \<Rightarrow> jsnum \<Rightarrow> jsnum" where
  "js_mul NaN _ = NaN"
| "js_mul _ NaN = NaN"
| "js_mul (Fin a) (Fin b) = Fin (a * b)"
| "js_mul a b =
     (let s = js_sign a * js_sign b in if s = 0 then NaN else if 0 < s then PInf else NInf)"

text \<open>\<open>a + b\<close>: the sum of the two opposite infinities is NaN.\<close>

fun js_add :: "jsnum \<Rightarrow> jsnum \<Rightarrow> jsnum" where
  "js_add NaN _ = NaN"
| "js_add _ NaN = NaN"
| "js_add (Fin a) (Fin b) = Fin (a + b)"
| "js_add (Fin _) b = b"
| "js_add a (Fin _) = a"
| "js_add PInf PInf = PInf"
| "js_add NInf NInf = NInf"
| "js_add PInf NInf = NaN"
| "js_add NInf PInf = NaN"

text \<open>
  The values of a record's fields, with the strict equality \<open>===\<close> on them: NaN is
  not equal to itself, and an array value stands for an array object of its own, which
  is identical to no other.
\<close>

datatype jsval = JUndefined | JNull | JBool bool | JNum jsnum | JStr string | JArr "jsval list"

fun strict_eq :: "jsval \<Rightarrow> jsval \<Rightarrow> bool" where
  "strict_eq (JNum a) (JNum b) = (a = b \<and> a \<noteq> NaN)"
| "strict_eq (JArr _) (JArr _) = False"
| "strict_eq a b = (a = b)"


section \<open>Records, arrays and the heap\<close>

text \<open>
  A record of the dataset is an object: its fields in insertion order.  Arrays hold
  references to objects, and \<open>indexOf\<close> compares references, so objects and arrays live
  in a heap and are named by their addresses.  \<open>next_obj\<close> and \<open>next_arr\<close> are the
  next free addresses.
\<close>

type_synonym fields = "(string \<times> jsval) list"
type_synonym oref = nat
type_synonym aref = nat

record heap =
  objs :: "oref \<Rightarrow> fields"
  arrs :: "aref \<Rightarrow> oref list"
  next_obj :: oref
  next_arr :: aref

datatype error = TypeError

definition new_array :: "oref list \<Rightarrow> heap \<Rightarrow> aref \<times> heap" where
  "new_array xs h =
     (next_arr h, h\<lparr>arrs := (arrs h)(next_arr h := xs), next_arr := Suc (next_arr h)\<rparr>)"

definition new_object :: "fields \<Rightarrow> heap \<Rightarrow> oref \<times> heap" where
  "new_object fs h =
     (next_obj h, h\<lparr>objs := (objs h)(next_obj h := fs), next_obj := Suc (next_obj h)\<rparr>)"

text \<open>\<open>o[k] = v\<close> on the object at \<open>r\<close>.\<close>

definition set_prop :: "oref \<Rightarrow> string \<Rightarrow> jsval \<Rightarrow> heap \<Rightarrow> heap" where
  "set_prop r k v h = h\<lparr>objs := (objs h)(r := AList.update k v (objs h r))\<rparr>"

text \<open>\<open>o[k]\<close> on fields: \<open>undefined\<close> for a missing property.\<close>

definition get_prop :: "string \<Rightarrow> fields \<Rightarrow> jsval" where
  "get_prop k fs = (case map_of fs k of None \<Rightarrow> JUndefined | Some v \<Rightarrow> v)"

text \<open>\<open>a.slice()\<close>: a new array with the same elements.\<close>

definition array_slice :: "aref \<Rightarrow> heap \<Rightarrow> aref \<times> heap" where
  "array_slice a h = new_array (arrs h a) h"

text \<open>\<open>a.filter(p)\<close>: a new array; \<open>p\<close> reads the fields of each element.\<close>

definition array_filter :: "(fields \<Rightarrow> bool) \<Rightarrow> aref \<Rightarrow> heap \<Rightarrow> aref \<times> heap" where
  "array_filter p a h = new_array (filter (\<lambda>r. p (objs h r)) (arrs h a)) h"

text \<open>\<open>a.push(r)\<close>.\<close>

definition array_push :: "aref \<Rightarrow> oref \<Rightarrow> heap \<Rightarrow> heap" where
  "array_push a r h = h\<lparr>arrs := (arrs h)(a := arrs h a @ [r])\<rparr>"

text \<open>\<open>a.indexOf(x)\<close>: the first index holding the reference \<open>x\<close>, or \<open>-1\<close>.\<close>

fun index_of :: "oref \<Rightarrow> oref list \<Rightarrow> int" where
  "index_of x [] = - 1"
| "index_of x (y # ys) =
     (if y = x then 0 else (let i = index_of x ys in if i < 0 then - 1 else i + 1))"

text \<open>
  \<open>a.splice(i, 1)\<close> on the elements: a negative \<open>i\<close> counts from the end (so \<open>-1\<close> is
  the last element), and a start beyond the end removes nothing.
\<close>

definition splice1 :: "int \<Rightarrow> 'a list \<Rightarrow> 'a list" where
  "splice1 i xs =
     (let len = int (length xs);
          start = (if i < 0 then max (len + i) 0 else min i len)
      in take (nat start) xs @ drop (nat start + 1) xs)"

definition array_splice1 :: "aref \<Rightarrow> int \<Rightarrow> heap \<Rightarrow> heap" where
  "array_splice1 a i h = h\<lparr>arrs := (arrs h)(a := splice1 i (arrs h a))\<rparr>"

section \<open>The treemap's threshold algorithm\<close>

text \<open>
  \<open>sum\<close> of d3-array, with an accessor: the values that are falsy after the numeric
  conversion (NaN and zero) are skipped.  The accessors of the model return the number
  that the conversion gives.
\<close>

definition d3_sum :: "('a \<Rightarrow> jsnum) \<Rightarrow> 'a list \<Rightarrow> jsnum" where
  "d3_sum f xs =
     fold (\<lambda>x s. let v = f x in if v = NaN \<or> v = Fin 0 then s else js_add s v) xs (Fin 0)"

text \<open>
  The fields of the treemap that \<open>_thresholdFunction\<close> reads.  \<open>threshold\<close> and
  \<open>thresholdKey\<close> are \<open>None\<close> when the field holds no function (a falsy value).
  The threshold function receives the records of a branch, the weight accessor one record
  and returns its weight as a number.
\<close>

record 'a treemap =
  aggs :: 'a
  drawDepth :: int
  groupBy :: "(fields \<Rightarrow> jsval) list"
  threshold :: "(fields list \<Rightarrow> jsnum) option"
  thresholdKey :: "(fields \<Rightarrow> jsnum) option"

text \<open>
  A branch of the grouped tree: its key and its child branches.  The records under a
  branch of the last level are never read by the algorithm.
\<close>

datatype branch = Branch jsval "branch list"

text \<open>
  \<open>currentDataset.filter(item => currentAccesor(item) === branch.key)\<close> with
  \<open>currentAccesor = groupBy[depth]\<close>: past the end of \<open>groupBy\<close> the accessor is
  \<open>undefined\<close>, and calling it on the first element raises a TypeError; on an empty
  array it is never called.
\<close>

definition filter_by_key ::
  "(fields \<Rightarrow> jsval) list \<Rightarrow> nat \<Rightarrow> jsval \<Rightarrow> aref \<Rightarrow> heap \<Rightarrow> error + aref \<times> heap" where
  "filter_by_key gb depth k cur h =
     (if depth < length gb
      then Inr (array_filter (\<lambda>item. strict_eq ((gb ! depth) item) k) cur h)
      else if arrs h cur = [] then Inr (new_array [] h)
      else Inl TypeError)"

text \<open>
  The loop \<open>let n = nextDataset.length; while (n--) {...}\<close> of the branch step: it reads
  \<open>nextDataset[n]\<close> from the heap at each round, removes the item from \<open>finalDataset\<close>
  at the index that \<open>indexOf\<close> gives, and pushes it on \<open>removedItems\<close> (a local
  array, kept as a list).  A read past the end would give \<open>undefined\<close>, on which the
  weight accessor raises.
\<close>

fun removeLoop ::
  "(fields \<Rightarrow> jsnum) \<Rightarrow> jsnum \<Rightarrow> aref \<Rightarrow> aref \<Rightarrow> nat \<Rightarrow> heap \<times> oref list
     \<Rightarrow> error + heap \<times> oref list" where
  "removeLoop tk thresholdValue finalDataset nextDataset 0 (h, removedItems) =
     Inr (h, removedItems)"
| "removeLoop tk thresholdValue finalDataset nextDataset (Suc n) (h, removedItems) =
     (if n < length (arrs h nextDataset) then
        (let item = arrs h nextDataset ! n in
         if js_lt (tk (objs h item)) thresholdValue then
           (let index = index_of item (arrs h finalDataset) in
            removeLoop tk thresholdValue finalDataset nextDataset n
              (array_splice1 finalDataset index h, removedItems @ [item]))
         else removeLoop tk thresholdValue finalDataset nextDataset n (h, removedItems))
      else Inl TypeError)"

text \<open>\<open>Math.min(1, Math.max(0, p))\<close>, the fraction made of the threshold function's result.\<close>

definition clampPercent :: "jsnum \<Rightarrow> jsnum" where
  "clampPercent p = js_min (Fin 1) (js_max (Fin 0) p)"

text \<open>
  The block under \<open>if (depth + 1 === drawDepth)\<close>.  \<open>mrg\<close> is \<open>merge\<close> of
  d3plus-common, which builds the fields of a new object from the removed records and
  the \<open>aggs\<close> configuration.
\<close>

definition aggregateBranch ::
  "(fields list \<Rightarrow> 'a \<Rightarrow> fields) \<Rightarrow> 'a treemap \<Rightarrow> (fields list \<Rightarrow> jsnum) \<Rightarrow> (fields \<Rightarrow> jsnum)
     \<Rightarrow> aref \<Rightarrow> jsnum \<Rightarrow> aref \<Rightarrow> heap \<Rightarrow> error + heap" where
  "aggregateBranch mrg t th tk finalDataset totalSum nextDataset h =
     (let thresholdPercent = clampPercent (th (map (objs h) (arrs h nextDataset))) in
      if \<not> isFinite thresholdPercent \<or> isNaN thresholdPercent then Inr h
      else
        (let thresholdValue = js_mul thresholdPercent totalSum in
         case removeLoop tk thresholdValue finalDataset nextDataset
                (length (arrs h nextDataset)) (h, []) of
           Inl e \<Rightarrow> Inl e
         | Inr (h1, removedItems) \<Rightarrow>
             if length removedItems > 0 then
               (let (mergedItem, h2) = new_object (mrg (map (objs h1) removedItems) (aggs t)) h1;
                    h3 = set_prop mergedItem ''_isAggregation'' (JBool True) h2;
                    h4 = set_prop mergedItem ''_threshold'' (JNum thresholdPercent) h3
                in Inr (array_push finalDataset mergedItem h4))
             else Inr h1))"

text \<open>
  \<open>thresholdByDepth\<close>.  The loop over \<open>branch.values\<close> runs from the last child to
  the first; an exception ends it.
\<close>

fun thresholdByDepth ::
  "(fields list \<Rightarrow> 'a \<Rightarrow> fields) \<Rightarrow> 'a treemap \<Rightarrow> (fields list \<Rightarrow> jsnum) \<Rightarrow> (fields \<Rightarrow> jsnum)
     \<Rightarrow> aref \<Rightarrow> jsnum \<Rightarrow> aref \<Rightarrow> branch \<Rightarrow> nat \<Rightarrow> heap \<Rightarrow> error + heap" where
  "thresholdByDepth mrg t th tk finalDataset totalSum currentDataset (Branch k leaves) depth h =
     (if drawDepth t \<le> int depth then Inr h
      else
        (case filter_by_key (groupBy t) depth k currentDataset h of
           Inl e \<Rightarrow> Inl e
         | Inr (nextDataset, h1) \<Rightarrow>
             if int depth + 1 = drawDepth t
             then aggregateBranch mrg t th tk finalDataset totalSum nextDataset h1
             else
               fold (\<lambda>leaf r. case r of
                        Inl e \<Rightarrow> Inl e
                      | Inr h2 \<Rightarrow>
                          thresholdByDepth mrg t th tk finalDataset totalSum nextDataset leaf
                            (depth + 1) h2)
                 (rev leaves) (Inr h1)))"

text \<open>
  \<open>_thresholdFunction(data, tree)\<close>: the address of the returned array and the heap
  after the call.
\<close>

definition thresholdFunction ::
  "(fields list \<Rightarrow> 'a \<Rightarrow> fields) \<Rightarrow> 'a treemap \<Rightarrow> aref \<Rightarrow> branch list \<Rightarrow> heap
     \<Rightarrow> error + aref \<times> heap" where
  "thresholdFunction mrg t data tree h =
     (case (threshold t, thresholdKey t) of
        (Some th, Some tk) \<Rightarrow>
          (let (finalDataset, h1) = array_slice data h;
               totalSum = d3_sum tk (map (objs h1) (arrs h1 finalDataset))
           in
           case fold (\<lambda>branch r. case r of
                         Inl e \<Rightarrow> Inl e
                       | Inr h2 \<Rightarrow>
                           thresholdByDepth mrg t th tk finalDataset totalSum data branch 0 h2)
                  (rev tree) (Inr h1) of
             Inl e \<Rightarrow> Inl e
           | Inr h3 \<Rightarrow> Inr (finalDataset, h3))
      | _ \<Rightarrow> Inr (data, h))"


section \<open>The accessor methods\<close>

text \<open>
  The argument of \<open>sum(_)\<close>: a function, or any other value, of which \<open>accessor\<close> of
  d3plus-common makes the function that reads the property of that name.  \<open>accessor\<close>
  is a parameter \<open>acc\<close> of the model.
\<close>

datatype sum_arg = JFunction "fields \<Rightarrow> jsnum" | JValue jsval

text \<open>
  The two accessor fields of a treemap; \<open>thresholdKey\<close> is the field that
  \<open>_thresholdFunction\<close> reads.
\<close>

record accessors =
  sumAcc :: "fields \<Rightarrow> jsnum"
  thresholdKeyAcc :: "fields \<Rightarrow> jsnum"

text \<open>The constructor: \<open>this._sum = accessor("value"); this._thresholdKey = this._sum\<close>.\<close>

definition constructor :: "(jsval \<Rightarrow> fields \<Rightarrow> jsnum) \<Rightarrow> accessors" where
  "constructor acc =
     (let s = acc (JStr ''value'') in \<lparr>sumAcc = s, thresholdKeyAcc = s\<rparr>)"

text \<open>\<open>sum(_)\<close> called with an argument (the setter), and with none (the getter).\<close>

definition sum_set :: "(jsval \<Rightarrow> fields \<Rightarrow> jsnum) \<Rightarrow> sum_arg \<Rightarrow> accessors \<Rightarrow> accessors" where
  "sum_set acc a this =
     (let this1 = this\<lparr>sumAcc := (case a of JFunction f \<Rightarrow> f | JValue v \<Rightarrow> acc v)\<rparr>
      in this1\<lparr>thresholdKeyAcc := sumAcc this1\<rparr>)"

definition sum_get :: "accessors \<Rightarrow> fields \<Rightarrow> jsnum" where
  "sum_get this = sumAcc this"

section \<open>Vocabulary of the properties\<close>

text \<open>The records of the branch with key \<open>k\<close> at \<open>depth\<close>: what \<open>nextDataset\<close> holds.\<close>

definition nextOf :: "'a treemap \<Rightarrow> nat \<Rightarrow> jsval \<Rightarrow> aref \<Rightarrow> heap \<Rightarrow> oref list" where
  "nextOf t depth k cur h =
     filter (\<lambda>r. strict_eq ((groupBy t ! depth) (objs h r)) k) (arrs h cur)"

text \<open>What the removals of a list of items, one after the other, leave of an array.\<close>

definition drop_refs :: "oref list \<Rightarrow> oref list \<Rightarrow> oref list" where
  "drop_refs removed final = fold (\<lambda>x f. splice1 (index_of x f) f) removed final"

text \<open>The merged fields with the two stamps of an aggregate.\<close>

definition stamped :: "fields \<Rightarrow> jsnum \<Rightarrow> fields" where
  "stamped fs tp =
     AList.update ''_threshold'' (JNum tp) (AList.update ''_isAggregation'' (JBool True) fs)"

text \<open>
  The clamp as the specification words it, \<open>max(0, min(1, p))\<close>, in the order of the
  extended numbers; NaN has no place in that order and is left as it is.
\<close>

fun spec_clamp :: "jsnum \<Rightarrow> jsnum" where
  "spec_clamp (Fin q) = Fin (max 0 (min 1 q))"
| "spec_clamp PInf = Fin 1"
| "spec_clamp NInf = Fin 0"
| "spec_clamp NaN = NaN"

section \<open>A dataset to run the algorithm on\<close>

text \<open>
  A model of \<open>merge\<close> of d3plus-common for records of strings and numbers and an empty
  \<open>aggs\<close>: the keys in the order of their first appearance; the values of a key that
  has a string collapse to the distinct ones (to the value itself when there is one),
  and numbers are summed.
\<close>

definition unique :: "'b list \<Rightarrow> 'b list" where
  "unique xs = rev (remdups (rev xs))"

fun is_str :: "jsval \<Rightarrow> bool" where
  "is_str (JStr _) = True"
| "is_str _ = False"

fun is_num :: "jsval \<Rightarrow> bool" where
  "is_num (JNum _) = True"
| "is_num _ = False"

fun num_of :: "jsval \<Rightarrow> jsnum" where
  "num_of (JNum n) = n"
| "num_of _ = NaN"

definition merge_values :: "jsval list \<Rightarrow> jsval" where
  "merge_values vs =
     (if list_ex is_str vs then (case unique vs of [v] \<Rightarrow> v | ds \<Rightarrow> JArr ds)
      else if list_ex is_num vs then JNum (d3_sum num_of vs)
      else JUndefined)"

definition merge_model :: "fields list \<Rightarrow> unit \<Rightarrow> fields" where
  "merge_model objects a =
     map (\<lambda>k. (k, merge_values (map (get_prop k) objects)))
       (unique (concat (map (map fst) objects)))"

text \<open>
  The records \<open>{k:"a",v:10}\<close>, \<open>{k:"a",v:1}\<close>, \<open>{k:"b",v:50}\<close> at the addresses 0, 1
  and 2, and the array \<open>data\<close> of the three at the address 0.
\<close>

definition rec_kv :: "string \<Rightarrow> rat \<Rightarrow> fields" where
  "rec_kv k v = [(''k'', JStr k), (''v'', JNum (Fin v))]"

definition scenario_heap :: heap where
  "scenario_heap =
     \<lparr>objs = (\<lambda>_. [])(0 := rec_kv ''a'' 10, 1 := rec_kv ''a'' 1, 2 := rec_kv ''b'' 50),
      arrs = (\<lambda>_. [])(0 := [0, 1, 2]),
      next_obj = 3, next_arr = 1\<rparr>"

text \<open>
  \<open>drawDepth = 1\<close>, \<open>groupBy = [r => r.k]\<close>, \<open>thresholdKey = r => r.v\<close>, and a
  constant threshold function.
\<close>

definition scenario_treemap :: "jsnum \<Rightarrow> unit treemap" where
  "scenario_treemap p =
     \<lparr>aggs = (), drawDepth = 1, groupBy = [get_prop ''k''],
      threshold = Some (\<lambda>_. p), thresholdKey = Some (\<lambda>r. num_of (get_prop ''v'' r))\<rparr>"

definition scenario_tree :: "branch list" where
  "scenario_tree = [Branch (JStr ''a'') [], Branch (JStr ''b'') []]"

text \<open>
  Two records with the same fields at the addresses 0 and 1; the array at the address 0
  holds the second only, the array at the address 1 holds both.
\<close>

definition twin_heap :: heap where
  "twin_heap =
     \<lparr>objs = (\<lambda>_. [])(0 := rec_kv ''a'' 1, 1 := rec_kv ''a'' 1),
      arrs = (\<lambda>_. [])(0 := [1], 1 := [0, 1]),
      next_obj = 2, next_arr = 2\<rparr>"

text \<open>The heap after \<open>data.slice()\<close>: the copy \<open>finalDataset\<close> is at the address 1.\<close>

definition sliced_heap :: heap where
  "sliced_heap = snd (array_slice 0 scenario_heap)"


section \<open>Grouped trees and whole runs\<close>

text \<open>
  A grouped tree: no two sibling branches have the same key, as in the result of a
  grouping.
\<close>

fun bkey :: "branch \<Rightarrow> jsval" where
  "bkey (Branch k leaves) = k"

fun grouped :: "branch \<Rightarrow> bool" where
  "grouped (Branch k leaves) = (distinct (map bkey leaves) \<and> list_all grouped leaves)"

text \<open>
  The contents of \<open>nextDataset\<close> at each branch of the leaf-adjacent depth under a
  branch, given the contents \<open>c\<close> of \<open>currentDataset\<close> and the fields \<open>ob\<close> of the
  records.
\<close>

fun leafAdjacent ::
  "'a treemap \<Rightarrow> (oref \<Rightarrow> fields) \<Rightarrow> nat \<Rightarrow> oref list \<Rightarrow> branch \<Rightarrow> oref list list" where
  "leafAdjacent t ob depth c (Branch k leaves) =
     (if drawDepth t \<le> int depth then []
      else
        (let n = filter (\<lambda>r. strict_eq ((groupBy t ! depth) (ob r)) k) c in
         if int depth + 1 = drawDepth t then [n]
         else concat (map (leafAdjacent t ob (depth + 1) n) leaves)))"

text \<open>
  A record is below the threshold value of a branch of the leaf-adjacent depth, under a
  given branch, to whose \<open>nextDataset\<close> it belongs.
\<close>

fun removedBy ::
  "'a treemap \<Rightarrow> (fields list \<Rightarrow> jsnum) \<Rightarrow> (fields \<Rightarrow> jsnum) \<Rightarrow> jsnum \<Rightarrow> (oref \<Rightarrow> fields)
     \<Rightarrow> nat \<Rightarrow> oref list \<Rightarrow> branch \<Rightarrow> oref \<Rightarrow> bool" where
  "removedBy t th tk totalSum ob depth c (Branch k leaves) x =
     (if drawDepth t \<le> int depth then False
      else
        (let n = filter (\<lambda>r. strict_eq ((groupBy t ! depth) (ob r)) k) c in
         if int depth + 1 = drawDepth t
         then x \<in> set n \<and> js_lt (tk (ob x)) (js_mul (clampPercent (th (map ob n))) totalSum)
         else list_ex (\<lambda>l. removedBy t th tk totalSum ob (depth + 1) n l x) leaves))"

text \<open>
  The state in which \<open>thresholdByDepth\<close> is called: the two arrays are allocated and
  distinct, and the records they hold are allocated.
\<close>

definition call_wf :: "aref \<Rightarrow> aref \<Rightarrow> heap \<Rightarrow> bool" where
  "call_wf fd cur h =
     (fd < next_arr h \<and> cur < next_arr h \<and> cur \<noteq> fd
      \<and> (\<forall>r\<in>set (arrs h cur). r < next_obj h) \<and> (\<forall>r\<in>set (arrs h fd). r < next_obj h))"

text \<open>
  What calls of \<open>thresholdByDepth\<close> on the branches \<open>bs\<close> do to the heap: the arrays
  other than \<open>finalDataset\<close> and the records that existed are unchanged, and each
  record below the threshold value of its branch has lost its occurrences in
  \<open>finalDataset\<close>.
\<close>

definition call_post ::
  "'a treemap \<Rightarrow> (fields list \<Rightarrow> jsnum) \<Rightarrow> (fields \<Rightarrow> jsnum) \<Rightarrow> jsnum \<Rightarrow> aref \<Rightarrow> aref \<Rightarrow> nat
     \<Rightarrow> branch list \<Rightarrow> heap \<Rightarrow> heap \<Rightarrow> bool" where
  "call_post t th tk totalSum fd cur depth bs h h' =
     (next_arr h \<le> next_arr h' \<and> (\<forall>a<next_arr h. a \<noteq> fd \<longrightarrow> arrs h' a = arrs h a)
      \<and> next_obj h \<le> next_obj h' \<and> (\<forall>r<next_obj h. objs h' r = objs h r)
      \<and> (\<forall>r\<in>set (arrs h' fd). r < next_obj h')
      \<and> (\<forall>x<next_obj h. count_list (arrs h' fd) x =
            count_list (arrs h fd) x
            - (if list_ex (\<lambda>b. removedBy t th tk totalSum (objs h) depth (arrs h cur) b x) bs
               then count_list (arrs h cur) x else 0)))"

section \<open>Arrays and the removal loop\<close>

declare thresholdByDepth.simps [simp del]

declare removedBy.simps [simp del]

declare leafAdjacent.simps [simp del]

lemma clampPercent_cases:
  "clampPercent (Fin q) = Fin (max 0 (min 1 q))"
  "clampPercent PInf = Fin 1"
  "clampPercent NInf = Fin 0"
  "clampPercent NaN = NaN"
  by (auto simp: clampPercent_def)

lemma clampPercent_guard:
  "(\<not> isFinite (clampPercent p) \<or> isNaN (clampPercent p)) = (p = NaN)"
  by (cases p) (auto simp: clampPercent_def)

lemma index_of_notin: "x \<notin> set xs \<Longrightarrow> index_of x xs = - 1"
  by (induction xs) (auto simp: Let_def)

lemma index_of_in: "x \<in> set xs \<Longrightarrow> 0 \<le> index_of x xs \<and> index_of x xs < int (length xs)"
  by (induction xs) (auto simp: Let_def)

lemma splice1_Cons_pos: "0 \<le> i \<Longrightarrow> splice1 (i + 1) (y # ys) = y # splice1 i ys"
  by (auto simp: splice1_def Let_def min_def nat_add_distrib)

lemma splice1_index_of: "x \<in> set xs \<Longrightarrow> splice1 (index_of x xs) xs = remove1 x xs"
proof (induction xs)
  case Nil then show ?case by simp
next
  case (Cons y ys)
  show ?case
  proof (cases "y = x")
    case True then show ?thesis by (simp add: splice1_def)
  next
    case False
    with Cons.prems have m: "x \<in> set ys" by simp
    from index_of_in[OF m] have "0 \<le> index_of x ys" by simp
    with False m Cons.IH show ?thesis by (simp add: Let_def splice1_Cons_pos)
  qed
qed

lemma splice1_minus1: "splice1 (- 1) xs = butlast xs"
  by (cases xs rule: rev_cases) (auto simp: splice1_def Let_def)

text \<open>
  For an item that is not in the array \<open>indexOf\<close> gives \<open>-1\<close>, and \<open>splice(-1, 1)\<close>
  takes the last element out.  The loop meets no such item on a grouped tree.
\<close>

lemma absent_item_removes_last: "x \<notin> set xs \<Longrightarrow> splice1 (index_of x xs) xs = butlast xs"
  by (simp add: index_of_notin splice1_minus1)

lemma set_splice1: "set (splice1 i xs) \<subseteq> set xs"
  unfolding splice1_def Let_def
  by (auto dest: in_set_takeD in_set_dropD)


lemma removeLoop_eq:
  assumes "nd \<noteq> fd"
  shows "n \<le> length (arrs h nd) \<Longrightarrow>
    removeLoop tk tv fd nd n (h, removed) =
      (let sel = filter (\<lambda>x. js_lt (tk (objs h x)) tv) (rev (take n (arrs h nd)))
       in Inr (h\<lparr>arrs := (arrs h)(fd := drop_refs sel (arrs h fd))\<rparr>, removed @ sel))"
proof (induction n arbitrary: h removed)
  case 0
  have "(arrs h)(fd := arrs h fd) = arrs h" by (rule fun_upd_triv)
  then show ?case by (simp add: drop_refs_def del: fun_upd_apply)
next
  case (Suc n)
  let ?xs = "arrs h nd"
  from Suc.prems have lt: "n < length ?xs" by simp
  then have tk: "rev (take (Suc n) ?xs) = ?xs ! n # rev (take n ?xs)"
    by (simp add: take_Suc_conv_app_nth)
  show ?case
  proof (cases "js_lt (tk (objs h (?xs ! n))) tv")
    case True
    let ?item = "?xs ! n"
    let ?h = "array_splice1 fd (index_of ?item (arrs h fd)) h"
    let ?sel = "filter (\<lambda>x. js_lt (tk (objs h x)) tv) (rev (take n ?xs))"
    have a: "arrs ?h nd = ?xs" "objs ?h = objs h"
      "arrs ?h fd = splice1 (index_of ?item (arrs h fd)) (arrs h fd)"
      using assms by (simp_all add: array_splice1_def)
    have le: "n \<le> length (arrs ?h nd)" using lt a by simp
    have hp: "?h\<lparr>arrs := (arrs ?h)(fd := ys)\<rparr> = h\<lparr>arrs := (arrs h)(fd := ys)\<rparr>" for ys
      by (simp add: array_splice1_def)
    have "removeLoop tk tv fd nd (Suc n) (h, removed) =
            removeLoop tk tv fd nd n (?h, removed @ [?item])"
      using lt True by (simp add: Let_def)
    also have "\<dots> = Inr (?h\<lparr>arrs := (arrs ?h)(fd := drop_refs ?sel (arrs ?h fd))\<rparr>,
                         (removed @ [?item]) @ ?sel)"
      unfolding Suc.IH[OF le] a Let_def ..
    also have "\<dots> = Inr (h\<lparr>arrs := (arrs h)(fd := drop_refs (?item # ?sel) (arrs h fd))\<rparr>,
                         removed @ (?item # ?sel))"
      unfolding hp a by (simp add: drop_refs_def)
    finally show ?thesis using True unfolding tk Let_def by simp
  next
    case False
    have le: "n \<le> length (arrs h nd)" using lt by simp
    show ?thesis
      using lt False
      by (simp add: Suc.IH[OF le] tk Let_def)
  qed
qed


lemma drop_refs_Nil [simp]: "drop_refs [] xs = xs"
  by (simp add: drop_refs_def)

lemma aggregateBranch_eq:
  assumes "nd \<noteq> fd"
  shows "aggregateBranch mrg t th tk fd totalSum nd h =
    (let tp = clampPercent (th (map (objs h) (arrs h nd))) in
     if tp = NaN then Inr h
     else
       (let sel = filter (\<lambda>x. js_lt (tk (objs h x)) (js_mul tp totalSum)) (rev (arrs h nd)) in
        if sel = [] then Inr h
        else Inr (h\<lparr>objs := (objs h)(next_obj h := stamped (mrg (map (objs h) sel) (aggs t)) tp),
                     arrs := (arrs h)(fd := drop_refs sel (arrs h fd) @ [next_obj h]),
                     next_obj := Suc (next_obj h)\<rparr>)))"
proof -
  let ?p = "th (map (objs h) (arrs h nd))"
  let ?tp = "clampPercent ?p"
  have g: "(\<not> isFinite ?tp \<or> isNaN ?tp) = (?tp = NaN)"
    by (cases ?p) (auto simp: clampPercent_def)
  have triv: "h\<lparr>arrs := (arrs h)(fd := arrs h fd)\<rparr> = h"
    by (simp del: fun_upd_apply)
  let ?sel = "filter (\<lambda>x. js_lt (tk (objs h x)) (js_mul ?tp totalSum)) (rev (arrs h nd))"
  have loop: "removeLoop tk (js_mul ?tp totalSum) fd nd (length (arrs h nd)) (h, []) =
      Inr (h\<lparr>arrs := (arrs h)(fd := drop_refs ?sel (arrs h fd))\<rparr>, ?sel)"
    using removeLoop_eq[OF assms, of "length (arrs h nd)" h tk "js_mul ?tp totalSum" "[]"]
    by (simp add: Let_def)
  show ?thesis
  proof (cases "?tp = NaN")
    case True
    then show ?thesis by (simp add: aggregateBranch_def Let_def)
  next
    case False
    with g have ng: "\<not> (\<not> isFinite ?tp \<or> isNaN ?tp)" by simp
    show ?thesis
    proof (cases "?sel = []")
      case True
      then show ?thesis
        using False ng triv by (simp add: aggregateBranch_def Let_def loop del: fun_upd_apply)
    next
      case sel: False
      show ?thesis
        using False ng sel
        by (simp add: aggregateBranch_def Let_def loop new_object_def set_prop_def array_push_def
              stamped_def fun_upd_same fun_upd_upd del: fun_upd_apply)
    qed
  qed
qed


lemma filter_by_key_ok:
  assumes "depth < length (groupBy t) \<or> arrs h cur = []"
  shows "filter_by_key (groupBy t) depth k cur h =
     Inr (next_arr h, h\<lparr>arrs := (arrs h)(next_arr h := nextOf t depth k cur h),
                        next_arr := Suc (next_arr h)\<rparr>)"
  using assms by (auto simp: filter_by_key_def array_filter_def new_array_def nextOf_def)

lemma tbd_leaf_adjacent:
  assumes la: "int depth + 1 = drawDepth t"
    and fd: "fd < next_arr h"
    and gb: "depth < length (groupBy t) \<or> arrs h cur = []"
    and nxt_def: "nxt = nextOf t depth k cur h"
    and tp_def: "tp = clampPercent (th (map (objs h) nxt))"
    and sel_def: "sel = filter (\<lambda>x. js_lt (tk (objs h x)) (js_mul tp totalSum)) (rev nxt)"
  shows "\<exists>h'. thresholdByDepth mrg t th tk fd totalSum cur (Branch k leaves) depth h = Inr h'
    \<and> next_arr h' = Suc (next_arr h)
    \<and> arrs h' (next_arr h) = nxt
    \<and> (\<forall>a. a \<noteq> fd \<longrightarrow> a \<noteq> next_arr h \<longrightarrow> arrs h' a = arrs h a)
    \<and> (if tp = NaN \<or> sel = []
       then arrs h' fd = arrs h fd \<and> objs h' = objs h \<and> next_obj h' = next_obj h
       else arrs h' fd = drop_refs sel (arrs h fd) @ [next_obj h]
          \<and> objs h' = (objs h)(next_obj h := stamped (mrg (map (objs h) sel) (aggs t)) tp)
          \<and> next_obj h' = Suc (next_obj h))"
proof -
  let ?h1 = "h\<lparr>arrs := (arrs h)(next_arr h := nxt), next_arr := Suc (next_arr h)\<rparr>"
  have ne: "next_arr h \<noteq> fd" using fd by simp
  have d: "\<not> drawDepth t \<le> int depth" using la by simp
  have h1: "objs ?h1 = objs h" "arrs ?h1 (next_arr h) = nxt" "arrs ?h1 fd = arrs h fd"
    "next_obj ?h1 = next_obj h"
    using ne by simp_all
  have eq: "thresholdByDepth mrg t th tk fd totalSum cur (Branch k leaves) depth h =
      aggregateBranch mrg t th tk fd totalSum (next_arr h) ?h1"
    using d la by (simp add: thresholdByDepth.simps filter_by_key_ok[OF gb] nxt_def)
  show ?thesis
    unfolding eq aggregateBranch_eq[OF ne] h1 Let_def
    using ne by (auto simp: tp_def sel_def)
qed



lemma set_drop_refs: "set (drop_refs sel xs) \<subseteq> set xs"
proof (induction sel arbitrary: xs)
  case Nil then show ?case by simp
next
  case (Cons x sel)
  have "drop_refs (x # sel) xs = drop_refs sel (splice1 (index_of x xs) xs)"
    by (simp add: drop_refs_def)
  then show ?case using Cons.IH[of "splice1 (index_of x xs) xs"] set_splice1[of "index_of x xs" xs]
    by auto
qed

lemma drop_refs_Cons: "drop_refs (x # sel) xs = drop_refs sel (splice1 (index_of x xs) xs)"
  by (simp add: drop_refs_def)

lemma mset_drop_refs:
  "mset sel \<subseteq># mset xs \<Longrightarrow> mset (drop_refs sel xs) = mset xs - mset sel"
proof (induction sel arbitrary: xs)
  case Nil then show ?case by simp
next
  case (Cons x sel)
  from Cons.prems have x: "x \<in> set xs"
    by (metis mset_subset_eq_insertD set_mset_mset mset.simps(2))
  from Cons.prems have sub: "mset sel \<subseteq># mset (remove1 x xs)"
    by (simp add: insert_subset_eq_iff)
  show ?case
    using Cons.IH[OF sub] x
    by (simp add: drop_refs_Cons splice1_index_of)
qed

lemma filter_drop_refs:
  "mset sel \<subseteq># mset xs \<Longrightarrow>
     filter (\<lambda>y. y \<notin> set sel) (drop_refs sel xs) = filter (\<lambda>y. y \<notin> set sel) xs"
proof -
  have gen: "mset sel \<subseteq># mset xs \<Longrightarrow> set sel \<subseteq> S \<Longrightarrow>
     filter (\<lambda>y. y \<notin> S) (drop_refs sel xs) = filter (\<lambda>y. y \<notin> S) xs" for S
  proof (induction sel arbitrary: xs)
    case Nil then show ?case by simp
  next
    case (Cons x sel)
    from Cons.prems have x: "x \<in> set xs"
      by (metis mset_subset_eq_insertD set_mset_mset mset.simps(2))
    from Cons.prems have sub: "mset sel \<subseteq># mset (remove1 x xs)"
      by (simp add: insert_subset_eq_iff)
    have r: "filter (\<lambda>y. y \<notin> S) (remove1 x xs) = filter (\<lambda>y. y \<notin> S) xs"
      using Cons.prems(2) by (induction xs) auto
    show ?case
      using Cons.IH[OF sub] Cons.prems(2) x r
      by (simp add: drop_refs_Cons splice1_index_of)
  qed
  assume "mset sel \<subseteq># mset xs"
  then show ?thesis using gen[of "set sel"] by simp
qed

lemma get_prop_stamped:
  "get_prop ''_isAggregation'' (stamped fs tp) = JBool True"
  "get_prop ''_threshold'' (stamped fs tp) = JNum tp"
  by (simp_all add: get_prop_def stamped_def update_conv')


lemma scenario_run:
  "(case thresholdFunction merge_model (scenario_treemap (Fin (1/2))) 0 scenario_tree
           scenario_heap of
      Inl e \<Rightarrow> False
    | Inr (fd, h') \<Rightarrow>
        map (objs h') (arrs h' fd) =
          [[(''k'', JStr ''b''), (''v'', JNum (Fin 50))],
           [(''k'', JStr ''a''), (''v'', JNum (Fin 11)),
            (''_isAggregation'', JBool True), (''_threshold'', JNum (Fin (1/2)))]]
        \<and> arrs h' fd = [2, 3] \<and> next_obj h' = 4)"
  by code_simp

lemma sliced_heap_simps:
  "next_arr sliced_heap = 2" "next_obj sliced_heap = 3"
  "arrs sliced_heap 0 = [0, 1, 2]" "arrs sliced_heap 1 = [0, 1, 2]"
  "objs sliced_heap 0 = rec_kv ''a'' 10" "objs sliced_heap (Suc 0) = rec_kv ''a'' 1"
  "objs sliced_heap 2 = rec_kv ''b'' 50" "arrs sliced_heap (Suc 0) = [0, 1, 2]"
  by (simp_all add: sliced_heap_def scenario_heap_def array_slice_def new_array_def)

lemma scenario_treemap_simps:
  "drawDepth (scenario_treemap p) = 1" "groupBy (scenario_treemap p) = [get_prop ''k'']"
  "aggs (scenario_treemap p) = ()"
  by (simp_all add: scenario_treemap_def)

lemma scenario_keys:
  "get_prop ''k'' (rec_kv k v) = JStr k" "num_of (get_prop ''v'' (rec_kv k v)) = Fin v"
  by (simp_all add: get_prop_def rec_kv_def)

lemma scenario_next:
  "nextOf (scenario_treemap p) 0 (JStr ''a'') 0 sliced_heap = [0, 1]"
  "nextOf (scenario_treemap p) 0 (JStr ''b'') 0 sliced_heap = [2]"
  "nextOf (scenario_treemap p) 0 (JStr ''z'') 0 sliced_heap = []"
  by (simp_all add: nextOf_def sliced_heap_simps scenario_treemap_simps scenario_keys)



lemma count_list_filter:
  "count_list (filter P xs) x = (if P x then count_list xs x else 0)"
  by (induction xs) auto

lemma count_list_rev: "count_list (rev xs) x = count_list xs x"
  by (induction xs) auto

lemma count_list_drop_refs:
  assumes "mset sel \<subseteq># mset xs"
  shows "count_list (drop_refs sel xs) x = count_list xs x - count_list sel x"
proof -
  have "count (mset (drop_refs sel xs)) x = count (mset xs - mset sel) x"
    using mset_drop_refs[OF assms] by simp
  then show ?thesis by (simp add: count_mset)
qed

lemma count_list_le_of_mset: "mset ys \<subseteq># mset xs \<Longrightarrow> count_list ys x \<le> count_list xs x"
  by (metis count_mset mset_subset_eq_count)

lemma scenario_merge:
  "stamped (merge_model [rec_kv ''a'' 1, rec_kv ''a'' 10] ()) tp =
     [(''k'', JStr ''a''), (''v'', JNum (Fin 11)),
      (''_isAggregation'', JBool True), (''_threshold'', JNum tp)]"
  by (simp add: stamped_def merge_model_def merge_values_def unique_def rec_kv_def get_prop_def
      d3_sum_def)

lemma filter_remove1_other:
  "x \<in> S \<Longrightarrow> filter (\<lambda>y. y \<notin> S) (remove1 x xs) = filter (\<lambda>y. y \<notin> S) xs"
  by (induction xs) auto

lemma twin_heap_simps:
  "next_arr twin_heap = 2" "next_obj twin_heap = 2"
  "arrs twin_heap 0 = [Suc 0]" "arrs twin_heap (Suc 0) = [0, Suc 0]"
  "objs twin_heap 0 = rec_kv ''a'' 1" "objs twin_heap (Suc 0) = rec_kv ''a'' 1"
  by (simp_all add: twin_heap_def)

lemma fold_Inl:
  "fold (\<lambda>x r. case r of Inl e \<Rightarrow> Inl e | Inr s \<Rightarrow> f x s) xs (Inl e) = Inl e"
  by (induction xs) simp_all

lemma fold_invariant_total:
  assumes "I s"
    and "\<And>x s. x \<in> set xs \<Longrightarrow> I s \<Longrightarrow> \<exists>s'. f x s = Inr s' \<and> I s'"
  shows "\<exists>s'. fold (\<lambda>x r. case r of Inl e \<Rightarrow> Inl e | Inr s \<Rightarrow> f x s) xs (Inr s) = Inr s' \<and> I s'"
  using assms
proof (induction xs arbitrary: s)
  case Nil then show ?case by simp
next
  case (Cons x xs)
  from Cons.prems(2)[of x s] Cons.prems(1) obtain s1 where s1: "f x s = Inr s1" "I s1" by auto
  from Cons.IH[OF s1(2)] Cons.prems(2) show ?case by (simp add: s1)
qed

lemma fold_invariant_partial:
  assumes "fold (\<lambda>x r. case r of Inl e \<Rightarrow> Inl e | Inr s \<Rightarrow> f x s) xs (Inr s) = Inr s'"
    and "I s"
    and "\<And>x s s'. x \<in> set xs \<Longrightarrow> I s \<Longrightarrow> f x s = Inr s' \<Longrightarrow> I s'"
  shows "I s'"
  using assms
proof (induction xs arbitrary: s)
  case Nil then show ?case by simp
next
  case (Cons x xs)
  show ?case
  proof (cases "f x s")
    case (Inl e)
    with Cons.prems(1) show ?thesis by (simp add: fold_Inl)
  next
    case (Inr s1)
    with Cons.prems have I1: "I s1" by auto
    from Cons.prems(1) Inr
    have f1: "fold (\<lambda>x r. case r of Inl e \<Rightarrow> Inl e | Inr s \<Rightarrow> f x s) xs (Inr s1) = Inr s'"
      by simp
    from Cons.IH[OF f1 I1] Cons.prems(3) show ?thesis by auto
  qed
qed

lemma filter_by_key_Inr:
  assumes "filter_by_key gb depth k cur h = Inr (nd, h1)"
  shows "nd = next_arr h \<and> next_arr h1 = Suc (next_arr h) \<and> objs h1 = objs h
       \<and> next_obj h1 = next_obj h \<and> (\<forall>a. a \<noteq> next_arr h \<longrightarrow> arrs h1 a = arrs h a)
       \<and> set (arrs h1 nd) \<subseteq> set (arrs h cur)"
  using assms
  by (auto simp: filter_by_key_def array_filter_def new_array_def split: if_splits)

lemma aggregateBranch_frame:
  assumes "nd \<noteq> fd"
  shows "\<exists>h'. aggregateBranch mrg t th tk fd totalSum nd h = Inr h'
     \<and> next_arr h' = next_arr h \<and> (\<forall>a. a \<noteq> fd \<longrightarrow> arrs h' a = arrs h a)"
  unfolding aggregateBranch_eq[OF assms] Let_def by simp

lemma tbd_unfold_inner:
  assumes "\<not> drawDepth t \<le> int depth"
    and "filter_by_key (groupBy t) depth k cur h = Inr (nx, h1)"
    and "int depth + 1 \<noteq> drawDepth t"
  shows "thresholdByDepth mrg t th tk fd totalSum cur (Branch k leaves) depth h =
     fold (\<lambda>leaf r. case r of Inl e \<Rightarrow> Inl e
             | Inr h2 \<Rightarrow> thresholdByDepth mrg t th tk fd totalSum nx leaf (depth + 1) h2)
       (rev leaves) (Inr h1)"
  by (subst thresholdByDepth.simps) (simp only: assms if_False sum.case prod.case)

lemma tbd_frame:
  "thresholdByDepth mrg t th tk fd totalSum cur b depth h = Inr h' \<Longrightarrow> fd < next_arr h \<Longrightarrow>
     next_arr h \<le> next_arr h' \<and> (\<forall>a<next_arr h. a \<noteq> fd \<longrightarrow> arrs h' a = arrs h a)"
proof (induction mrg t th tk fd totalSum cur b depth h arbitrary: h'
    rule: thresholdByDepth.induct)
  case (1 mrg t th tk fd totalSum cur k leaves depth h)
  show ?case
  proof (cases "drawDepth t \<le> int depth")
    case True
    with "1.prems" show ?thesis by (simp add: thresholdByDepth.simps)
  next
    case nd: False
    show ?thesis
    proof (cases "filter_by_key (groupBy t) depth k cur h")
      case (Inl e)
      with nd "1.prems" show ?thesis by (simp add: thresholdByDepth.simps)
    next
      case (Inr b)
      obtain nx h1 where b: "b = (nx, h1)" by (cases b)
      note f = filter_by_key_Inr[OF Inr[unfolded b]]
      from f "1.prems"(2) have ne: "nx \<noteq> fd" and fd1: "fd < next_arr h1" by auto
      show ?thesis
      proof (cases "int depth + 1 = drawDepth t")
        case True
        with nd Inr b "1.prems"(1)
        have "aggregateBranch mrg t th tk fd totalSum nx h1 = Inr h'"
          by (simp add: thresholdByDepth.simps)
        with aggregateBranch_frame[OF ne, of mrg t th tk totalSum h1] f
        show ?thesis by auto
      next
        case False
        let ?I = "\<lambda>s. next_arr h1 \<le> next_arr s
                   \<and> (\<forall>a<next_arr h1. a \<noteq> fd \<longrightarrow> arrs s a = arrs h1 a)"
        have fo: "fold (\<lambda>leaf r. case r of Inl e \<Rightarrow> Inl e
                     | Inr h2 \<Rightarrow> thresholdByDepth mrg t th tk fd totalSum nx leaf (depth + 1) h2)
                   (rev leaves) (Inr h1) = Inr h'"
          using "1.prems"(1) unfolding tbd_unfold_inner[OF nd Inr[unfolded b] False] .
        have "?I h'"
        proof (rule fold_invariant_partial[OF fo, of ?I])
          show "?I h1" by simp
        next
          fix x s s'
          assume x: "x \<in> set (rev leaves)" and I: "?I s"
            and r: "thresholdByDepth mrg t th tk fd totalSum nx x (depth + 1) s = Inr s'"
          from I fd1 have "fd < next_arr s" by simp
          from "1.IH"[OF nd Inr b[symmetric] False x r this] I
          show "?I s'" by auto
        qed
        with f show ?thesis by auto
      qed
    qed
  qed
qed

lemma tbd_total:
  "drawDepth t \<le> int (length (groupBy t)) \<Longrightarrow> fd < next_arr h \<Longrightarrow>
     \<exists>h'. thresholdByDepth mrg t th tk fd totalSum cur b depth h = Inr h'"
proof (induction mrg t th tk fd totalSum cur b depth h rule: thresholdByDepth.induct)
  case (1 mrg t th tk fd totalSum cur k leaves depth h)
  show ?case
  proof (cases "drawDepth t \<le> int depth")
    case True
    then show ?thesis by (simp add: thresholdByDepth.simps)
  next
    case nd: False
    with "1.prems"(1) have gb: "depth < length (groupBy t) \<or> arrs h cur = []" by simp
    obtain nx h1 where fk: "filter_by_key (groupBy t) depth k cur h = Inr (nx, h1)"
      using filter_by_key_ok[OF gb] by blast
    note f = filter_by_key_Inr[OF fk]
    from f "1.prems"(2) have ne: "nx \<noteq> fd" and fd1: "fd < next_arr h1" by auto
    show ?thesis
    proof (cases "int depth + 1 = drawDepth t")
      case True
      with nd fk aggregateBranch_frame[OF ne, of mrg t th tk totalSum h1]
      show ?thesis by (auto simp: thresholdByDepth.simps)
    next
      case False
      let ?I = "\<lambda>s::heap. fd < next_arr s"
      have "\<exists>s'. fold (\<lambda>leaf r. case r of Inl e \<Rightarrow> Inl e
                     | Inr h2 \<Rightarrow> thresholdByDepth mrg t th tk fd totalSum nx leaf (depth + 1) h2)
                   (rev leaves) (Inr h1) = Inr s' \<and> ?I s'"
      proof (rule fold_invariant_total[of ?I])
        show "?I h1" using fd1 .
      next
        fix x s
        assume x: "x \<in> set (rev leaves)" and I: "?I s"
        from "1.IH"[OF nd fk refl False x "1.prems"(1) I]
        obtain s' where s': "thresholdByDepth mrg t th tk fd totalSum nx x (depth + 1) s
            = Inr s'" by auto
        from tbd_frame[OF s' I] I have "?I s'" by simp
        with s' show "\<exists>s'. thresholdByDepth mrg t th tk fd totalSum nx x (depth + 1) s
            = Inr s' \<and> ?I s'" by blast
      qed
      then show ?thesis unfolding tbd_unfold_inner[OF nd fk False] by blast
    qed
  qed
qed

lemma clampPercent_finite: "clampPercent p \<noteq> NaN \<Longrightarrow> \<exists>q. clampPercent p = Fin q"
  by (cases p) (simp_all add: clampPercent_cases)

lemma js_mul_zero: "clampPercent p \<noteq> NaN \<Longrightarrow> js_mul (clampPercent p) (Fin 0) = Fin 0"
  using clampPercent_finite[of p] by auto

lemma thresholdFunction_unfold:
  assumes "threshold t = Some th" and "thresholdKey t = Some tk"
  shows "thresholdFunction mrg t data tree h =
    (case fold (\<lambda>branch r. case r of Inl e \<Rightarrow> Inl e
                 | Inr h2 \<Rightarrow> thresholdByDepth mrg t th tk (next_arr h)
                     (d3_sum tk (map (objs h) (arrs h data))) data branch 0 h2)
            (rev tree)
            (Inr (h\<lparr>arrs := (arrs h)(next_arr h := arrs h data), next_arr := Suc (next_arr h)\<rparr>)) of
       Inl e \<Rightarrow> Inl e
     | Inr h3 \<Rightarrow> Inr (next_arr h, h3))"
  unfolding thresholdFunction_def array_slice_def new_array_def
  by (simp add: assms)

lemma tbd_zero_unchanged:
  "totalSum = Fin 0 \<Longrightarrow> drawDepth t \<le> int (length (groupBy t)) \<Longrightarrow> fd < next_arr h \<Longrightarrow>
   cur < next_arr h \<Longrightarrow> \<forall>r\<in>set (arrs h cur). \<not> js_lt (tk (objs h r)) (Fin 0) \<Longrightarrow>
   \<exists>h'. thresholdByDepth mrg t th tk fd totalSum cur b depth h = Inr h'
      \<and> objs h' = objs h \<and> next_obj h' = next_obj h \<and> next_arr h \<le> next_arr h'
      \<and> (\<forall>a<next_arr h. arrs h' a = arrs h a)"
proof (induction mrg t th tk fd totalSum cur b depth h rule: thresholdByDepth.induct)
  case (1 mrg t th tk fd totalSum cur k leaves depth h)
  note ts = "1.prems"(1) and gbl = "1.prems"(2) and fd = "1.prems"(3) and cur = "1.prems"(4)
    and nn = "1.prems"(5)
  show ?case
  proof (cases "drawDepth t \<le> int depth")
    case True
    then show ?thesis by (simp add: thresholdByDepth.simps)
  next
    case nd: False
    with gbl have gb: "depth < length (groupBy t) \<or> arrs h cur = []" by simp
    show ?thesis
    proof (cases "int depth + 1 = drawDepth t")
      case True
      let ?nxt = "nextOf t depth k cur h"
      let ?tp = "clampPercent (th (map (objs h) ?nxt))"
      let ?sel = "filter (\<lambda>x. js_lt (tk (objs h x)) (js_mul ?tp totalSum)) (rev ?nxt)"
      have sub: "set ?nxt \<subseteq> set (arrs h cur)" by (auto simp: nextOf_def)
      have e: "?tp = NaN \<or> ?sel = []"
      proof (cases "?tp = NaN")
        case False
        then have "js_mul ?tp totalSum = Fin 0" using ts by (simp add: js_mul_zero)
        with nn sub show ?thesis by (auto simp: filter_empty_conv)
      qed simp
      from tbd_leaf_adjacent[where th = th and tk = tk and mrg = mrg and leaves = leaves
          and totalSum = totalSum, OF True fd gb refl refl refl, of k]
      obtain h' where r: "thresholdByDepth mrg t th tk fd totalSum cur (Branch k leaves) depth h = Inr h'"
        and n: "next_arr h' = Suc (next_arr h)"
        and o: "\<forall>a. a \<noteq> fd \<longrightarrow> a \<noteq> next_arr h \<longrightarrow> arrs h' a = arrs h a"
        and c: "arrs h' fd = arrs h fd \<and> objs h' = objs h \<and> next_obj h' = next_obj h"
        using e by auto
      have "\<forall>a<next_arr h. arrs h' a = arrs h a"
      proof (intro allI impI)
        fix a assume "a < next_arr h"
        then show "arrs h' a = arrs h a" using o c by (cases "a = fd") auto
      qed
      with r n c show ?thesis by simp
    next
      case False
      obtain nx h1 where fk: "filter_by_key (groupBy t) depth k cur h = Inr (nx, h1)"
        using filter_by_key_ok[OF gb] by blast
      note f = filter_by_key_Inr[OF fk]
      let ?I = "\<lambda>s::heap. objs s = objs h \<and> next_obj s = next_obj h
                  \<and> next_arr h1 \<le> next_arr s \<and> (\<forall>a<next_arr h1. arrs s a = arrs h1 a)"
      have "\<exists>s'. fold (\<lambda>leaf r. case r of Inl e \<Rightarrow> Inl e
                     | Inr h2 \<Rightarrow> thresholdByDepth mrg t th tk fd totalSum nx leaf (depth + 1) h2)
                   (rev leaves) (Inr h1) = Inr s' \<and> ?I s'"
      proof (rule fold_invariant_total[of ?I])
        show "?I h1" using f by simp
      next
        fix x s
        assume x: "x \<in> set (rev leaves)" and I: "?I s"
        from I f fd have fds: "fd < next_arr s" and nxs: "nx < next_arr s" by auto
        from I f have "arrs s nx = arrs h1 nx" by simp
        with f nn I have nns: "\<forall>r\<in>set (arrs s nx). \<not> js_lt (tk (objs s r)) (Fin 0)" by auto
        from "1.IH"[OF nd fk refl False x ts gbl fds nxs nns]
        obtain s' where s': "thresholdByDepth mrg t th tk fd totalSum nx x (depth + 1) s = Inr s'"
          "objs s' = objs s" "next_obj s' = next_obj s" "next_arr s \<le> next_arr s'"
          "\<forall>a<next_arr s. arrs s' a = arrs s a"
          by auto
        have "?I s'" using s'(2-5) I by auto
        with s'(1) show "\<exists>s'. thresholdByDepth mrg t th tk fd totalSum nx x (depth + 1) s = Inr s'
            \<and> ?I s'" by blast
      qed
      then obtain s' where s': "thresholdByDepth mrg t th tk fd totalSum cur (Branch k leaves) depth h
          = Inr s'" "?I s'"
        unfolding tbd_unfold_inner[OF nd fk False] by blast
      from s'(2) f have "objs s' = objs h \<and> next_obj s' = next_obj h \<and> next_arr h \<le> next_arr s'
          \<and> (\<forall>a<next_arr h. arrs s' a = arrs h a)"
        by auto
      with s'(1) show ?thesis by blast
    qed
  qed
qed

lemma scenario_heap_simps:
  "next_arr scenario_heap = 1" "next_obj scenario_heap = 3" "arrs scenario_heap 0 = [0, 1, 2]"
  by (simp_all add: scenario_heap_def)

lemma strict_eq_eq: "strict_eq a b \<Longrightarrow> a = b"
  by (cases a; cases b) auto

lemma removedBy_sub:
  "removedBy t th tk totalSum ob depth c b x \<Longrightarrow>
     x \<in> set c \<and> strict_eq ((groupBy t ! depth) (ob x)) (bkey b)"
proof (induction t th tk totalSum ob depth c b x rule: removedBy.induct)
  case (1 t th tk totalSum ob depth c k leaves x)
  let ?n = "filter (\<lambda>r. strict_eq ((groupBy t ! depth) (ob r)) k) c"
  from "1.prems" have nd: "\<not> drawDepth t \<le> int depth"
    by (auto simp: removedBy.simps split: if_splits)
  show ?case
  proof (cases "int depth + 1 = drawDepth t")
    case True
    with "1.prems" nd show ?thesis by (auto simp: removedBy.simps Let_def)
  next
    case False
    with "1.prems" nd obtain l where l: "l \<in> set leaves"
      "removedBy t th tk totalSum ob (depth + 1) ?n l x"
      by (auto simp: removedBy.simps Let_def list_ex_iff)
    from "1.IH"[OF nd refl False l] have "x \<in> set ?n" by simp
    then show ?thesis by simp
  qed
qed

lemma removedBy_cong:
  "(\<And>r. r \<in> set c \<Longrightarrow> ob r = ob' r) \<Longrightarrow>
     removedBy t th tk totalSum ob depth c b x = removedBy t th tk totalSum ob' depth c b x"
proof (induction t th tk totalSum ob depth c b x rule: removedBy.induct)
  case (1 t th tk totalSum ob depth c k leaves x)
  let ?n = "filter (\<lambda>r. strict_eq ((groupBy t ! depth) (ob r)) k) c"
  let ?n' = "filter (\<lambda>r. strict_eq ((groupBy t ! depth) (ob' r)) k) c"
  have n: "?n = ?n'" using "1.prems" by (auto intro: filter_cong)
  have m: "map ob ?n = map ob' ?n'" unfolding n using "1.prems" by auto
  show ?case
  proof (cases "drawDepth t \<le> int depth")
    case True then show ?thesis by (simp add: removedBy.simps)
  next
    case nd: False
    show ?thesis
    proof (cases "int depth + 1 = drawDepth t")
      case True
      have x: "x \<in> set ?n \<Longrightarrow> ob x = ob' x" using "1.prems" by auto
      have L: "removedBy t th tk totalSum ob depth c (Branch k leaves) x =
          (x \<in> set ?n \<and> js_lt (tk (ob x)) (js_mul (clampPercent (th (map ob ?n))) totalSum))"
        using nd True by (simp add: removedBy.simps Let_def)
      have R: "removedBy t th tk totalSum ob' depth c (Branch k leaves) x =
          (x \<in> set ?n' \<and> js_lt (tk (ob' x)) (js_mul (clampPercent (th (map ob' ?n'))) totalSum))"
        using nd True by (simp add: removedBy.simps Let_def)
      have m': "map ob' ?n = map ob ?n" using "1.prems" by auto
      show ?thesis unfolding L R n[symmetric] m' using x by auto
    next
      case False
      have "removedBy t th tk totalSum ob (depth + 1) ?n l x
          = removedBy t th tk totalSum ob' (depth + 1) ?n l x" if "l \<in> set leaves" for l
        using "1.IH"[OF nd refl False that] "1.prems" by auto
      with nd False n show ?thesis by (auto simp: removedBy.simps Let_def list_ex_iff)
    qed
  qed
qed

lemma nextOf_count:
  "count_list (nextOf t depth k cur h) x =
     (if strict_eq ((groupBy t ! depth) (objs h x)) k then count_list (arrs h cur) x else 0)"
  by (simp add: nextOf_def count_list_filter)

lemma siblings_counts:
  assumes ih: "\<And>l s. l \<in> set ls \<Longrightarrow> call_wf fd cur s \<Longrightarrow>
            mset (nextOf t depth (bkey l) cur s) \<subseteq># mset (arrs s fd) \<Longrightarrow>
            \<exists>s'. thresholdByDepth mrg t th tk fd totalSum cur l depth s = Inr s'
               \<and> call_post t th tk totalSum fd cur depth [l] s s'"
    and dist: "distinct (map bkey ls)"
    and wf: "call_wf fd cur s"
    and present: "\<forall>l\<in>set ls. mset (nextOf t depth (bkey l) cur s) \<subseteq># mset (arrs s fd)"
  shows "\<exists>s'. fold (\<lambda>l r. case r of Inl e \<Rightarrow> Inl e
                 | Inr s \<Rightarrow> thresholdByDepth mrg t th tk fd totalSum cur l depth s) ls (Inr s)
              = Inr s'
          \<and> call_post t th tk totalSum fd cur depth ls s s'"
  using assms
proof (induction ls arbitrary: s)
  case Nil
  then show ?case by (simp add: call_post_def call_wf_def)
next
  case (Cons l ls)
  let ?c = "arrs s cur"
  let ?R = "\<lambda>ob c b x. removedBy t th tk totalSum ob depth c b x"
  note wf = Cons.prems(3)
  from Cons.prems(4) have pl: "mset (nextOf t depth (bkey l) cur s) \<subseteq># mset (arrs s fd)"
    by simp
  from Cons.prems(1)[OF _ wf pl]
  obtain s1 where s1: "thresholdByDepth mrg t th tk fd totalSum cur l depth s = Inr s1"
    and p1: "call_post t th tk totalSum fd cur depth [l] s s1"
    by auto
  from p1 wf have c1: "arrs s1 cur = ?c"
    by (simp add: call_post_def call_wf_def)
  from p1 wf have o1: "\<And>r. r \<in> set ?c \<Longrightarrow> objs s1 r = objs s r"
    by (simp add: call_post_def call_wf_def)
  have wf1: "call_wf fd cur s1"
    using p1 wf c1 unfolding call_post_def call_wf_def by fastforce
  have cnt1: "count_list (arrs s1 fd) x =
      count_list (arrs s fd) x - (if ?R (objs s) ?c l x then count_list ?c x else 0)"
    if "x < next_obj s" for x
    using p1 that by (simp add: call_post_def)
  have nx1: "nextOf t depth k cur s1 = nextOf t depth k cur s" for k
    unfolding nextOf_def c1 using o1 by (auto intro: filter_cong)
  have notboth: "\<not> ?R (objs s) ?c l x" if l': "l' \<in> set ls"
    and m: "strict_eq ((groupBy t ! depth) (objs s x)) (bkey l')" for l' x
  proof
    assume "?R (objs s) ?c l x"
    from removedBy_sub[OF this] have "strict_eq ((groupBy t ! depth) (objs s x)) (bkey l)" by simp
    with m have "bkey l = bkey l'" by (metis strict_eq_eq)
    with Cons.prems(2) l' show False by auto
  qed
  have present1: "\<forall>l'\<in>set ls. mset (nextOf t depth (bkey l') cur s1) \<subseteq># mset (arrs s1 fd)"
  proof
    fix l' assume l': "l' \<in> set ls"
    from Cons.prems(4) l' have p: "mset (nextOf t depth (bkey l') cur s) \<subseteq># mset (arrs s fd)"
      by simp
    show "mset (nextOf t depth (bkey l') cur s1) \<subseteq># mset (arrs s1 fd)"
      unfolding nx1
    proof (rule mset_subset_eqI)
      fix x
      show "count (mset (nextOf t depth (bkey l') cur s)) x \<le> count (mset (arrs s1 fd)) x"
      proof (cases "x \<in> set (nextOf t depth (bkey l') cur s)")
        case False
        then show ?thesis by (simp add: count_mset count_list_0_iff)
      next
        case True
        then have xc: "x \<in> set ?c" and m: "strict_eq ((groupBy t ! depth) (objs s x)) (bkey l')"
          by (auto simp: nextOf_def)
        from xc wf have "x < next_obj s" by (simp add: call_wf_def)
        from cnt1[OF this] notboth[OF l' m]
        have "count_list (arrs s1 fd) x = count_list (arrs s fd) x" by simp
        with count_list_le_of_mset[OF p, of x] show ?thesis by (simp add: count_mset)
      qed
    qed
  qed
  from Cons.prems(2) have dist1: "distinct (map bkey ls)" by simp
  from Cons.IH[OF Cons.prems(1) dist1 wf1 present1]
  obtain s' where s': "fold (\<lambda>l r. case r of Inl e \<Rightarrow> Inl e
                 | Inr s \<Rightarrow> thresholdByDepth mrg t th tk fd totalSum cur l depth s) ls (Inr s1)
              = Inr s'"
    and p2: "call_post t th tk totalSum fd cur depth ls s1 s'"
    by auto
  have Rc: "?R (objs s1) ?c b x = ?R (objs s) ?c b x" for b x
    by (rule removedBy_cong) (use o1 in auto)
  have cnt: "count_list (arrs s' fd) x =
      count_list (arrs s fd) x
        - (if list_ex (\<lambda>b. ?R (objs s) ?c b x) (l # ls) then count_list ?c x else 0)"
    if x: "x < next_obj s" for x
  proof -
    from p1 x have "x < next_obj s1" by (simp add: call_post_def)
    with p2 have a: "count_list (arrs s' fd) x =
        count_list (arrs s1 fd) x - (if list_ex (\<lambda>b. ?R (objs s) ?c b x) ls then count_list ?c x else 0)"
      by (simp add: call_post_def c1 Rc)
    show ?thesis
    proof (cases "list_ex (\<lambda>b. ?R (objs s) ?c b x) ls")
      case True
      then obtain l' where l': "l' \<in> set ls" "?R (objs s) ?c l' x" by (auto simp: list_ex_iff)
      from removedBy_sub[OF l'(2)] notboth[OF l'(1)] have "\<not> ?R (objs s) ?c l x" by simp
      with a cnt1[OF x] True show ?thesis by simp
    next
      case False
      with a cnt1[OF x] show ?thesis by simp
    qed
  qed
  have "call_post t th tk totalSum fd cur depth (l # ls) s s'"
    unfolding call_post_def
  proof (intro conjI)
    show "next_arr s \<le> next_arr s'" using p1 p2 by (simp add: call_post_def)
    show "\<forall>a<next_arr s. a \<noteq> fd \<longrightarrow> arrs s' a = arrs s a"
      using p1 p2 by (simp add: call_post_def)
    show "next_obj s \<le> next_obj s'" using p1 p2 by (simp add: call_post_def)
    show "\<forall>r<next_obj s. objs s' r = objs s r" using p1 p2 by (simp add: call_post_def)
    show "\<forall>r\<in>set (arrs s' fd). r < next_obj s'" using p2 by (simp add: call_post_def)
    show "\<forall>x<next_obj s. count_list (arrs s' fd) x =
            count_list (arrs s fd) x
            - (if list_ex (\<lambda>b. removedBy t th tk totalSum (objs s) depth (arrs s cur) b x) (l # ls)
               then count_list (arrs s cur) x else 0)"
      using cnt by blast
  qed
  with s' s1 show ?case by simp
qed

lemma js_lt_NaN: "\<not> js_lt a NaN"
  by (cases a) simp_all

lemma list_all_grouped: "grouped (Branch k leaves) \<Longrightarrow> l \<in> set leaves \<Longrightarrow> grouped l"
  by (simp add: list_all_iff)

lemma tbd_counts:
  "grouped b \<Longrightarrow> drawDepth t \<le> int (length (groupBy t)) \<Longrightarrow> call_wf fd cur h \<Longrightarrow>
   mset (nextOf t depth (bkey b) cur h) \<subseteq># mset (arrs h fd) \<Longrightarrow>
   \<exists>h'. thresholdByDepth mrg t th tk fd totalSum cur b depth h = Inr h'
      \<and> call_post t th tk totalSum fd cur depth [b] h h'"
proof (induction mrg t th tk fd totalSum cur b depth h rule: thresholdByDepth.induct)
  case (1 mrg t th tk fd totalSum cur k leaves depth h)
  note gr = "1.prems"(1) and gbl = "1.prems"(2) and wf = "1.prems"(3)
  from "1.prems"(4) have present: "mset (nextOf t depth k cur h) \<subseteq># mset (arrs h fd)" by simp
  let ?c = "arrs h cur"
  let ?n = "nextOf t depth k cur h"
  let ?R = "removedBy t th tk totalSum (objs h) depth ?c (Branch k leaves)"
  from wf have fd: "fd < next_arr h" and fresh: "\<forall>r\<in>set (arrs h fd). r < next_obj h"
    by (simp_all add: call_wf_def)
  show ?case
  proof (cases "drawDepth t \<le> int depth")
    case True
    then have "thresholdByDepth mrg t th tk fd totalSum cur (Branch k leaves) depth h = Inr h"
      by (simp add: thresholdByDepth.simps)
    moreover have "call_post t th tk totalSum fd cur depth [Branch k leaves] h h"
      using True wf by (simp add: call_post_def call_wf_def removedBy.simps)
    ultimately show ?thesis by blast
  next
    case nd: False
    with gbl have gb: "depth < length (groupBy t) \<or> arrs h cur = []" by simp
    show ?thesis
    proof (cases "int depth + 1 = drawDepth t")
      case True
      let ?tp = "clampPercent (th (map (objs h) ?n))"
      let ?sel = "filter (\<lambda>x. js_lt (tk (objs h x)) (js_mul ?tp totalSum)) (rev ?n)"
      have R: "?R x = (x \<in> set ?sel)" for x
        using nd True by (auto simp: removedBy.simps Let_def nextOf_def)
      have sub: "mset ?sel \<subseteq># mset (arrs h fd)"
      proof -
        have "mset ?sel \<subseteq># mset ?n" by simp
        then show ?thesis using present by (rule subset_mset.order_trans)
      qed
      have csel: "count_list ?sel x = (if x \<in> set ?sel then count_list ?c x else 0)" for x
        by (auto simp: count_list_filter count_list_rev nextOf_def count_list_0_iff)
      from tbd_leaf_adjacent[where th = th and tk = tk and mrg = mrg and leaves = leaves
          and totalSum = totalSum, OF True fd gb refl refl refl, of k]
      obtain h' where r: "thresholdByDepth mrg t th tk fd totalSum cur (Branch k leaves) depth h = Inr h'"
        and n: "next_arr h' = Suc (next_arr h)"
        and o: "\<forall>a. a \<noteq> fd \<longrightarrow> a \<noteq> next_arr h \<longrightarrow> arrs h' a = arrs h a"
        and c: "if ?tp = NaN \<or> ?sel = []
           then arrs h' fd = arrs h fd \<and> objs h' = objs h \<and> next_obj h' = next_obj h
           else arrs h' fd = drop_refs ?sel (arrs h fd) @ [next_obj h]
              \<and> objs h' = (objs h)(next_obj h := stamped (mrg (map (objs h) ?sel) (aggs t)) ?tp)
              \<and> next_obj h' = Suc (next_obj h)"
        by auto
      have nan: "?tp = NaN \<Longrightarrow> ?sel = []" by (simp add: js_lt_NaN)
      have "call_post t th tk totalSum fd cur depth [Branch k leaves] h h'"
      proof (cases "?sel = []")
        case e: True
        with c have "arrs h' fd = arrs h fd" "objs h' = objs h" "next_obj h' = next_obj h"
          by auto
        then show ?thesis
          using n o fresh e by (simp add: call_post_def R)
      next
        case ne: False
        with nan have "\<not> (?tp = NaN \<or> ?sel = [])" by blast
        with c have a: "arrs h' fd = drop_refs ?sel (arrs h fd) @ [next_obj h]"
          and ob: "objs h' = (objs h)(next_obj h := stamped (mrg (map (objs h) ?sel) (aggs t)) ?tp)"
          and no: "next_obj h' = Suc (next_obj h)"
          by auto
        have b: "\<forall>r\<in>set (arrs h' fd). r < next_obj h'"
          using set_drop_refs[of ?sel "arrs h fd"] fresh unfolding a no
          by (auto simp: less_Suc_eq dest!: subsetD)
        have cnt: "\<forall>x<next_obj h. count_list (arrs h' fd) x =
            count_list (arrs h fd) x - (if ?R x then count_list ?c x else 0)"
          using csel by (simp add: a count_list_drop_refs[OF sub] R)
        show ?thesis
          unfolding call_post_def using n o b cnt by (simp add: ob no)
      qed
      with r show ?thesis by blast
    next
      case False
      obtain nx h1 where fk: "filter_by_key (groupBy t) depth k cur h = Inr (nx, h1)"
        using filter_by_key_ok[OF gb] by blast
      from fk filter_by_key_ok[OF gb, of k]
      have nxe: "nx = next_arr h"
        and h1e: "h1 = h\<lparr>arrs := (arrs h)(next_arr h := ?n), next_arr := Suc (next_arr h)\<rparr>"
        by auto
      have h1: "objs h1 = objs h" "next_obj h1 = next_obj h" "arrs h1 nx = ?n"
        "next_arr h1 = Suc (next_arr h)" "\<And>a. a \<noteq> next_arr h \<Longrightarrow> arrs h1 a = arrs h a"
        by (simp_all add: nxe h1e)
      have nsub: "set ?n \<subseteq> set ?c" by (auto simp: nextOf_def)
      have wf1: "call_wf fd nx h1"
        using wf nsub unfolding call_wf_def h1 nxe by (auto simp: h1e)
      have fd1: "arrs h1 fd = arrs h fd" using fd by (simp add: h1)
      have pres1: "\<forall>l\<in>set (rev leaves). mset (nextOf t (depth + 1) (bkey l) nx h1)
                      \<subseteq># mset (arrs h1 fd)"
      proof
        fix l
        have "mset (nextOf t (depth + 1) (bkey l) nx h1) \<subseteq># mset (arrs h1 nx)"
          unfolding nextOf_def by simp
        then have "mset (nextOf t (depth + 1) (bkey l) nx h1) \<subseteq># mset ?n"
          unfolding h1(3) .
        then show "mset (nextOf t (depth + 1) (bkey l) nx h1) \<subseteq># mset (arrs h1 fd)"
          unfolding fd1 using present by (rule subset_mset.order_trans)
      qed
      have dist: "distinct (map bkey (rev leaves))"
        using gr by (simp add: rev_map[symmetric])
      have ih: "\<exists>s'. thresholdByDepth mrg t th tk fd totalSum nx l (depth + 1) s = Inr s'
               \<and> call_post t th tk totalSum fd nx (depth + 1) [l] s s'"
        if "l \<in> set (rev leaves)" "call_wf fd nx s"
          "mset (nextOf t (depth + 1) (bkey l) nx s) \<subseteq># mset (arrs s fd)" for l s
        using "1.IH"[OF nd fk refl False that(1) _ gbl that(2,3)] list_all_grouped[OF gr] that(1)
        by auto
      from siblings_counts[OF ih dist wf1 pres1]
      obtain s' where s': "fold (\<lambda>l r. case r of Inl e \<Rightarrow> Inl e
                 | Inr s \<Rightarrow> thresholdByDepth mrg t th tk fd totalSum nx l (depth + 1) s)
               (rev leaves) (Inr h1) = Inr s'"
        and p: "call_post t th tk totalSum fd nx (depth + 1) (rev leaves) h1 s'"
        by blast
      have r: "thresholdByDepth mrg t th tk fd totalSum cur (Branch k leaves) depth h = Inr s'"
        unfolding tbd_unfold_inner[OF nd fk False] by (rule s')
      have Rx: "?R x = list_ex (\<lambda>l. removedBy t th tk totalSum (objs h) (depth + 1) ?n l x)
                         (rev leaves)" for x
        using nd False by (simp add: removedBy.simps Let_def nextOf_def list_ex_iff)
      have cn: "count_list ?n x = count_list ?c x" if "?R x" for x
        using removedBy_sub[OF that] by (simp add: nextOf_count)
      have cnt: "\<forall>x<next_obj h. count_list (arrs s' fd) x =
            count_list (arrs h fd) x - (if ?R x then count_list ?c x else 0)"
        using p cn unfolding call_post_def h1 fd1 Rx[symmetric] by auto
      have "call_post t th tk totalSum fd cur depth [Branch k leaves] h s'"
        unfolding call_post_def
      proof (intro conjI)
        show "next_arr h \<le> next_arr s'" using p by (simp add: call_post_def h1)
        show "\<forall>a<next_arr h. a \<noteq> fd \<longrightarrow> arrs s' a = arrs h a"
          using p h1(5) by (simp add: call_post_def h1(4))
        show "next_obj h \<le> next_obj s'" using p by (simp add: call_post_def h1)
        show "\<forall>r<next_obj h. objs s' r = objs h r" using p by (simp add: call_post_def h1)
        show "\<forall>r\<in>set (arrs s' fd). r < next_obj s'" using p by (simp add: call_post_def)
        show "\<forall>x<next_obj h. count_list (arrs s' fd) x =
            count_list (arrs h fd) x
            - (if list_ex (\<lambda>b. removedBy t th tk totalSum (objs h) depth (arrs h cur) b x)
                  [Branch k leaves]
               then count_list (arrs h cur) x else 0)"
          using cnt by simp
      qed
      with r show ?thesis by blast
    qed
  qed
qed

lemma run_counts:
  assumes th: "threshold t = Some th"
    and tk: "thresholdKey t = Some tk"
    and wf: "data < next_arr h"
    and refs: "\<forall>r\<in>set (arrs h data). r < next_obj h"
    and gb: "drawDepth t \<le> int (length (groupBy t))"
    and dist: "distinct (map bkey tree)"
    and gr: "list_all grouped tree"
    and total: "totalSum = d3_sum tk (map (objs h) (arrs h data))"
  shows "\<exists>fd h'. thresholdFunction mrg t data tree h = Inr (fd, h')
    \<and> (\<forall>r<next_obj h. objs h' r = objs h r)
    \<and> (\<forall>x\<in>set (arrs h data). count_list (arrs h' fd) x =
          (if list_ex (\<lambda>b. removedBy t th tk totalSum (objs h) 0 (arrs h data) b x) tree
           then 0 else count_list (arrs h data) x))"
proof -
  let ?fd = "next_arr h"
  let ?h1 = "h\<lparr>arrs := (arrs h)(?fd := arrs h data), next_arr := Suc ?fd\<rparr>"
  let ?fold = "fold (\<lambda>branch r. case r of Inl e \<Rightarrow> Inl e
                 | Inr h2 \<Rightarrow> thresholdByDepth mrg t th tk ?fd totalSum data branch 0 h2)
                 (rev tree) (Inr ?h1)"
  have u: "thresholdFunction mrg t data tree h =
      (case ?fold of Inl e \<Rightarrow> Inl e | Inr h3 \<Rightarrow> Inr (?fd, h3))"
    unfolding total by (rule thresholdFunction_unfold[OF th tk])
  have h1: "arrs ?h1 data = arrs h data" "arrs ?h1 ?fd = arrs h data" "objs ?h1 = objs h"
    "next_obj ?h1 = next_obj h"
    using wf by simp_all
  have wf1: "call_wf ?fd data ?h1"
    using wf refs by (simp add: call_wf_def)
  have pres: "\<forall>l\<in>set (rev tree). mset (nextOf t 0 (bkey l) data ?h1) \<subseteq># mset (arrs ?h1 ?fd)"
    unfolding h1 nextOf_def h1 by simp
  have dist': "distinct (map bkey (rev tree))" using dist by (simp add: rev_map[symmetric])
  have ih: "\<exists>s'. thresholdByDepth mrg t th tk ?fd totalSum data l 0 s = Inr s'
               \<and> call_post t th tk totalSum ?fd data 0 [l] s s'"
    if "l \<in> set (rev tree)" "call_wf ?fd data s"
      "mset (nextOf t 0 (bkey l) data s) \<subseteq># mset (arrs s ?fd)" for l s
  proof -
    from that(1) gr have "grouped l" by (simp add: list_all_iff)
    from tbd_counts[OF this gb that(2,3)] show ?thesis .
  qed
  from siblings_counts[OF ih dist' wf1 pres]
  obtain s' where s': "?fold = Inr s'"
    and p: "call_post t th tk totalSum ?fd data 0 (rev tree) ?h1 s'"
    by blast
  have r: "thresholdFunction mrg t data tree h = Inr (?fd, s')"
    unfolding u s' by simp
  have o: "\<forall>r<next_obj h. objs s' r = objs h r"
    using p unfolding call_post_def h1 by simp
  have c: "\<forall>x\<in>set (arrs h data). count_list (arrs s' ?fd) x =
          (if list_ex (\<lambda>b. removedBy t th tk totalSum (objs h) 0 (arrs h data) b x) tree
           then 0 else count_list (arrs h data) x)"
  proof
    fix x assume "x \<in> set (arrs h data)"
    with refs have "x < next_obj h" by simp
    with p show "count_list (arrs s' ?fd) x =
          (if list_ex (\<lambda>b. removedBy t th tk totalSum (objs h) 0 (arrs h data) b x) tree
           then 0 else count_list (arrs h data) x)"
      unfolding call_post_def h1 by (simp add: list_ex_iff)
  qed
  from r o c show ?thesis by blast
qed


lemma removedBy_leafAdjacent:
  "removedBy t th tk totalSum ob depth c b x =
     (\<exists>N\<in>set (leafAdjacent t ob depth c b).
        x \<in> set N \<and> js_lt (tk (ob x)) (js_mul (clampPercent (th (map ob N))) totalSum))"
proof (induction t th tk totalSum ob depth c b x rule: removedBy.induct)
  case (1 t th tk totalSum ob depth c k leaves x)
  let ?n = "filter (\<lambda>r. strict_eq ((groupBy t ! depth) (ob r)) k) c"
  show ?case
  proof (cases "drawDepth t \<le> int depth")
    case True
    then show ?thesis by (simp add: removedBy.simps leafAdjacent.simps)
  next
    case nd: False
    show ?thesis
    proof (cases "int depth + 1 = drawDepth t")
      case True
      with nd show ?thesis by (simp add: removedBy.simps leafAdjacent.simps Let_def)
    next
      case False
      have "removedBy t th tk totalSum ob (depth + 1) ?n l x =
          (\<exists>N\<in>set (leafAdjacent t ob (depth + 1) ?n l).
              x \<in> set N \<and> js_lt (tk (ob x)) (js_mul (clampPercent (th (map ob N))) totalSum))"
        if "l \<in> set leaves" for l
        by (rule "1.IH"[OF nd refl False that])
      with nd False show ?thesis
        by (auto simp: removedBy.simps leafAdjacent.simps Let_def list_ex_iff)
    qed
  qed
qed



lemma scenario_leafAdjacent:
  "concat (map (leafAdjacent (scenario_treemap p) (objs scenario_heap) 0 [0, 1, 2]) scenario_tree)
     = [[0, 1], [2]]"
  by (simp add: leafAdjacent.simps scenario_tree_def scenario_treemap_simps scenario_heap_def
      scenario_keys)

lemma removedBy_zero:
  assumes "removedBy t th tk (Fin 0) ob depth c b x"
  shows "js_lt (tk (ob x)) (Fin 0)"
proof -
  from assms obtain N where N: "x \<in> set N"
    "js_lt (tk (ob x)) (js_mul (clampPercent (th (map ob N))) (Fin 0))"
    by (auto simp: removedBy_leafAdjacent)
  show ?thesis
  proof (cases "clampPercent (th (map ob N)) = NaN")
    case True
    with N(2) show ?thesis by (simp add: js_lt_NaN)
  next
    case False
    with N(2) show ?thesis by (simp add: js_mul_zero)
  qed
qed

text \<open>The clamp of the code is the clamp of the specification, on every number.\<close>

lemma clampPercent_spec_clamp: "clampPercent p = spec_clamp p"
  by (cases p) (auto simp: clampPercent_def)

section \<open>The claims\<close>

text \<open>
  C2.  When the threshold function or the weight accessor is absent, \<open>_thresholdFunction\<close>
  does nothing: it returns the array \<open>data\<close> itself, and the heap is the one it was
  given, so the records, their order and their number are the same.
\<close>

theorem thresholdFunction_noop:
  assumes "threshold t = None \<or> thresholdKey t = None"
  shows "thresholdFunction mrg t data tree h = Inr (data, h)"
  using assms by (auto simp: thresholdFunction_def split: option.splits)

theorem thresholdFunction_noop_witness:
  "thresholdFunction merge_model ((scenario_treemap (Fin (1/2)))\<lparr>threshold := None\<rparr>) 0
      scenario_tree scenario_heap = Inr (0, scenario_heap)
   \<and> map (objs scenario_heap) (arrs scenario_heap 0) =
       [rec_kv ''a'' 10, rec_kv ''a'' 1, rec_kv ''b'' 50]"
  using thresholdFunction_noop[of "(scenario_treemap (Fin (1/2)))\<lparr>threshold := None\<rparr>"
      merge_model 0 scenario_tree scenario_heap]
  by (simp add: scenario_heap_def)

text \<open>
  C6.  On the records \<open>{k:"a",v:10}\<close>, \<open>{k:"a",v:1}\<close>, \<open>{k:"b",v:50}\<close> with
  \<open>drawDepth = 1\<close>, grouping by \<open>k\<close>, the constant threshold 0.5 and the weight
  \<open>v\<close>: the total is 61, the threshold value is 30.5, and the call returns a new array
  holding the record of branch b and then one aggregate of the two records of branch a,
  with the value 11, \<open>_isAggregation = true\<close> and \<open>_threshold = 0.5\<close>.
\<close>

theorem scenario_1:
  "d3_sum (\<lambda>r. num_of (get_prop ''v'' r)) (map (objs scenario_heap) (arrs scenario_heap 0))
     = Fin 61
   \<and> js_mul (clampPercent (Fin (1/2))) (Fin 61) = Fin (61/2)
   \<and> (\<exists>fd h'. thresholdFunction merge_model (scenario_treemap (Fin (1/2))) 0 scenario_tree
          scenario_heap = Inr (fd, h')
        \<and> map (objs h') (arrs h' fd) =
            [[(''k'', JStr ''b''), (''v'', JNum (Fin 50))],
             [(''k'', JStr ''a''), (''v'', JNum (Fin 11)),
              (''_isAggregation'', JBool True), (''_threshold'', JNum (Fin (1/2)))]]
        \<and> arrs h' fd = [2, 3] \<and> next_obj h' = 4)"
proof -
  have 1: "d3_sum (\<lambda>r. num_of (get_prop ''v'' r))
             (map (objs scenario_heap) (arrs scenario_heap 0)) = Fin 61"
    by (simp add: d3_sum_def scenario_heap_def rec_kv_def get_prop_def)
  have 2: "js_mul (clampPercent (Fin (1/2))) (Fin 61) = Fin (61/2)"
    by (simp add: clampPercent_def)
  have 3: "\<exists>fd h'. thresholdFunction merge_model (scenario_treemap (Fin (1/2))) 0 scenario_tree
          scenario_heap = Inr (fd, h')
        \<and> map (objs h') (arrs h' fd) =
            [[(''k'', JStr ''b''), (''v'', JNum (Fin 50))],
             [(''k'', JStr ''a''), (''v'', JNum (Fin 11)),
              (''_isAggregation'', JBool True), (''_threshold'', JNum (Fin (1/2)))]]
        \<and> arrs h' fd = [2, 3] \<and> next_obj h' = 4"
    using scenario_run
    by (cases "thresholdFunction merge_model (scenario_treemap (Fin (1/2))) 0 scenario_tree
          scenario_heap") auto
  from 1 2 3 show ?thesis by blast
qed

text \<open>
  C10.  \<open>sum(_)\<close> with an argument stores one accessor in both fields: the argument
  when it is a function, \<open>accessor(_)\<close> otherwise.  The constructor does the same with
  \<open>accessor("value")\<close>, so after the constructor and any sequence of \<open>sum(_)\<close> calls
  the weight of the threshold is the accessor of the hierarchy's sums.
\<close>

theorem sum_couples_thresholdKey:
  "thresholdKeyAcc (sum_set acc a this) = sumAcc (sum_set acc a this)
   \<and> sumAcc (sum_set acc a this) = (case a of JFunction f \<Rightarrow> f | JValue v \<Rightarrow> acc v)
   \<and> thresholdKeyAcc (constructor acc) = sumAcc (constructor acc)
   \<and> thresholdKeyAcc (fold (sum_set acc) as (constructor acc))
       = sumAcc (fold (sum_set acc) as (constructor acc))"
proof -
  have 1: "thresholdKeyAcc (sum_set acc a this) = sumAcc (sum_set acc a this)" for a this
    by (simp add: sum_set_def)
  have 2: "thresholdKeyAcc (constructor acc) = sumAcc (constructor acc)"
    by (simp add: constructor_def Let_def)
  have 3: "thresholdKeyAcc this = sumAcc this \<Longrightarrow>
      thresholdKeyAcc (fold (sum_set acc) as this) = sumAcc (fold (sum_set acc) as this)" for this
    by (induction as arbitrary: this) (simp_all add: 1)
  show ?thesis using 1 2 3[OF 2] by (simp add: sum_set_def)
qed







text \<open>
  C8.  A branch of the leaf-adjacent depth with no record, whose threshold function gives
  NaN on the empty array: the call returns normally, the output dataset and every array
  that existed are as before, and no record is created or changed.
\<close>

theorem empty_branch_nan_skipped:
  assumes la: "int depth + 1 = drawDepth t"
    and fd: "fd < next_arr h"
    and gb: "depth < length (groupBy t) \<or> arrs h cur = []"
    and empty: "nextOf t depth k cur h = []"
    and nan: "th [] = NaN"
  shows "\<exists>h'. thresholdByDepth mrg t th tk fd totalSum cur (Branch k leaves) depth h = Inr h'
    \<and> arrs h' fd = arrs h fd \<and> objs h' = objs h \<and> next_obj h' = next_obj h
    \<and> (\<forall>a<next_arr h. arrs h' a = arrs h a)"
proof -
  have tp: "NaN = clampPercent (th (map (objs h) []))"
    using nan by (simp add: clampPercent_cases)
  from tbd_leaf_adjacent[where th = th and tk = tk and mrg = mrg and totalSum = totalSum
      and leaves = leaves, OF la fd gb empty[symmetric] tp refl]
  obtain h' where h': "thresholdByDepth mrg t th tk fd totalSum cur (Branch k leaves) depth h = Inr h'"
    "\<forall>a. a \<noteq> fd \<longrightarrow> a \<noteq> next_arr h \<longrightarrow> arrs h' a = arrs h a"
    "arrs h' fd = arrs h fd" "objs h' = objs h" "next_obj h' = next_obj h"
    by auto
  have "\<forall>a<next_arr h. arrs h' a = arrs h a"
    using h'(2,3) by (metis less_irrefl)
  with h' show ?thesis by blast
qed

theorem empty_branch_nan_skipped_witness:
  "\<exists>h'. thresholdByDepth merge_model (scenario_treemap NaN)
           (\<lambda>xs. if xs = [] then NaN else Fin (1/2))
           (\<lambda>r. num_of (get_prop ''v'' r)) 1 (Fin 61) 0 (Branch (JStr ''z'') []) 0 sliced_heap
         = Inr h'
       \<and> arrs h' 1 = [0, 1, 2] \<and> objs h' = objs sliced_heap \<and> next_obj h' = 3"
proof -
  let ?t = "scenario_treemap NaN"
  have la: "int 0 + 1 = drawDepth ?t" by (simp add: scenario_treemap_simps)
  have fd: "1 < next_arr sliced_heap" by (simp add: sliced_heap_simps)
  have gb: "0 < length (groupBy ?t) \<or> arrs sliced_heap 0 = []"
    by (simp add: scenario_treemap_simps)
  have e: "nextOf ?t 0 (JStr ''z'') 0 sliced_heap = []" by (simp add: scenario_next)
  have n: "(\<lambda>xs::fields list. if xs = [] then NaN else Fin (1/2)) [] = NaN" by simp
  from empty_branch_nan_skipped[where th = "\<lambda>xs. if xs = [] then NaN else Fin (1/2)"
      and tk = "\<lambda>r. num_of (get_prop ''v'' r)" and totalSum = "Fin 61"
      and mrg = merge_model and leaves = "[]", OF la fd gb e n]
  show ?thesis
    by (auto simp: sliced_heap_simps)
qed

text \<open>
  C3.  A branch of the leaf-adjacent depth adds at most one record to the output dataset:
  none when the fraction is NaN or no item is below the threshold value; otherwise
  exactly one new object, put at the end of the output dataset, made of the removed items
  by \<open>merge\<close>, with \<open>_isAggregation = true\<close> and \<open>_threshold\<close> the clamped
  fraction \<open>max(0, min(1, p))\<close> of the threshold function's result \<open>p\<close>.  The records
  that existed are not changed.
\<close>

theorem at_most_one_aggregate:
  assumes la: "int depth + 1 = drawDepth t"
    and fd: "fd < next_arr h"
    and gb: "depth < length (groupBy t)"
    and fresh: "\<forall>r\<in>set (arrs h fd). r < next_obj h"
    and nxt: "nxt = nextOf t depth k cur h"
    and tp: "tp = spec_clamp (th (map (objs h) nxt))"
    and sel: "sel = filter (\<lambda>x. js_lt (tk (objs h x)) (js_mul tp totalSum)) (rev nxt)"
  shows "\<exists>h'. thresholdByDepth mrg t th tk fd totalSum cur (Branch k leaves) depth h = Inr h'
    \<and> (\<forall>r<next_obj h. objs h' r = objs h r)
    \<and> next_obj h' \<le> Suc (next_obj h)
    \<and> set (arrs h' fd) \<subseteq> set (arrs h fd) \<union> {next_obj h}
    \<and> count_list (arrs h' fd) (next_obj h) \<le> 1
    \<and> (tp = NaN \<or> sel = [] \<longrightarrow> next_obj h' = next_obj h \<and> arrs h' fd = arrs h fd)
    \<and> (tp \<noteq> NaN \<and> sel \<noteq> [] \<longrightarrow>
          next_obj h' = Suc (next_obj h)
        \<and> arrs h' fd \<noteq> [] \<and> last (arrs h' fd) = next_obj h
        \<and> next_obj h \<notin> set (butlast (arrs h' fd))
        \<and> objs h' (next_obj h) = stamped (mrg (map (objs h) sel) (aggs t)) tp
        \<and> get_prop ''_isAggregation'' (objs h' (next_obj h)) = JBool True
        \<and> get_prop ''_threshold'' (objs h' (next_obj h)) = JNum tp)"
proof -
  from gb have gb': "depth < length (groupBy t) \<or> arrs h cur = []" by simp
  from tp have tp': "tp = clampPercent (th (map (objs h) nxt))"
    by (simp add: clampPercent_spec_clamp)
  from tbd_leaf_adjacent[where th = th and tk = tk and mrg = mrg and leaves = leaves,
      OF la fd gb' nxt tp' sel]
  obtain h' where r: "thresholdByDepth mrg t th tk fd totalSum cur (Branch k leaves) depth h = Inr h'"
    and c: "if tp = NaN \<or> sel = []
       then arrs h' fd = arrs h fd \<and> objs h' = objs h \<and> next_obj h' = next_obj h
       else arrs h' fd = drop_refs sel (arrs h fd) @ [next_obj h]
          \<and> objs h' = (objs h)(next_obj h := stamped (mrg (map (objs h) sel) (aggs t)) tp)
          \<and> next_obj h' = Suc (next_obj h)"
    by auto
  have nf: "next_obj h \<notin> set (arrs h fd)" using fresh by auto
  then have nd: "next_obj h \<notin> set (drop_refs sel (arrs h fd))"
    using set_drop_refs[of sel "arrs h fd"] by auto
  show ?thesis
  proof (cases "tp = NaN \<or> sel = []")
    case True
    with c nf show ?thesis
      by (intro exI[of _ h']) (auto simp: r count_list_0_iff)
  next
    case False
    with c have a: "arrs h' fd = drop_refs sel (arrs h fd) @ [next_obj h]"
      and o: "objs h' = (objs h)(next_obj h := stamped (mrg (map (objs h) sel) (aggs t)) tp)"
      and n: "next_obj h' = Suc (next_obj h)"
      by simp_all
    have cnt: "count_list (arrs h' fd) (next_obj h) \<le> 1"
      using nd by (simp add: a count_list_0_iff)
    have sub: "set (arrs h' fd) \<subseteq> set (arrs h fd) \<union> {next_obj h}"
      using set_drop_refs[of sel "arrs h fd"] by (auto simp: a)
    show ?thesis
      using False cnt sub nd
      by (intro exI[of _ h']) (simp add: r a o n get_prop_stamped)
  qed
qed

theorem at_most_one_aggregate_witness:
  "\<exists>h'. thresholdByDepth merge_model (scenario_treemap (Fin 2)) (\<lambda>_. Fin 2)
           (\<lambda>r. num_of (get_prop ''v'' r)) 1 (Fin 61) 0 (Branch (JStr ''a'') []) 0 sliced_heap
         = Inr h'
       \<and> next_obj h' = 4 \<and> last (arrs h' 1) = 3 \<and> count_list (arrs h' 1) 3 \<le> 1
       \<and> get_prop ''_threshold'' (objs h' 3) = JNum (Fin 1)
       \<and> objs h' 3 = [(''k'', JStr ''a''), (''v'', JNum (Fin 11)),
                       (''_isAggregation'', JBool True), (''_threshold'', JNum (Fin 1))]"
proof -
  let ?t = "scenario_treemap (Fin 2)"
  let ?tk = "\<lambda>r. num_of (get_prop ''v'' r)"
  have la: "int 0 + 1 = drawDepth ?t" by (simp add: scenario_treemap_simps)
  have fd: "1 < next_arr sliced_heap" by (simp add: sliced_heap_simps)
  have gb: "0 < length (groupBy ?t)" by (simp add: scenario_treemap_simps)
  have fresh: "\<forall>r\<in>set (arrs sliced_heap 1). r < next_obj sliced_heap"
    by (simp add: sliced_heap_simps)
  have nxt: "[0, 1] = nextOf ?t 0 (JStr ''a'') 0 sliced_heap" by (simp add: scenario_next)
  have tp: "Fin 1 = spec_clamp ((\<lambda>_. Fin 2) (map (objs sliced_heap) [0, 1]))"
    by simp
  have sel: "[1, 0] = filter (\<lambda>x. js_lt (?tk (objs sliced_heap x))
                 (js_mul (Fin 1) (Fin 61))) (rev [0, 1])"
    by (simp add: sliced_heap_simps scenario_keys)
  from at_most_one_aggregate[where th = "\<lambda>_. Fin 2" and tk = ?tk and mrg = merge_model
      and leaves = "[]", OF la fd gb fresh nxt tp sel]
  show ?thesis
    by (auto simp: sliced_heap_simps scenario_merge scenario_treemap_simps)
qed



text \<open>
  C7.  Removal is by identity.  At a branch of the leaf-adjacent depth all of whose items
  are still in the output dataset, the removals take out occurrences of the removed
  references only: every other record, also one whose fields equal those of a removed
  item, stays where it was and as often as it was there, and each removed reference
  loses exactly as many occurrences as were removed.
\<close>

theorem removal_by_identity:
  assumes la: "int depth + 1 = drawDepth t"
    and fd: "fd < next_arr h"
    and gb: "depth < length (groupBy t)"
    and fresh: "\<forall>r\<in>set (arrs h fd). r < next_obj h"
    and nxt: "nxt = nextOf t depth k cur h"
    and present: "mset nxt \<subseteq># mset (arrs h fd)"
    and tp: "tp = clampPercent (th (map (objs h) nxt))"
    and sel: "sel = filter (\<lambda>x. js_lt (tk (objs h x)) (js_mul tp totalSum)) (rev nxt)"
  shows "\<exists>h'. thresholdByDepth mrg t th tk fd totalSum cur (Branch k leaves) depth h = Inr h'
    \<and> filter (\<lambda>y. y \<notin> set sel) (arrs h' fd) =
        filter (\<lambda>y. y \<notin> set sel) (arrs h fd) @ (if tp = NaN \<or> sel = [] then [] else [next_obj h])
    \<and> (\<forall>y<next_obj h. y \<notin> set sel \<longrightarrow> count_list (arrs h' fd) y = count_list (arrs h fd) y)
    \<and> (\<forall>x\<in>set sel. \<forall>y<next_obj h. y \<noteq> x \<and> y \<notin> set sel \<and> objs h y = objs h x \<longrightarrow>
          count_list (arrs h' fd) y = count_list (arrs h fd) y)
    \<and> (tp \<noteq> NaN \<longrightarrow>
         (\<forall>x\<in>set sel. count_list (arrs h' fd) x = count_list (arrs h fd) x - count_list sel x))"
proof -
  from gb have gb': "depth < length (groupBy t) \<or> arrs h cur = []" by simp
  from tbd_leaf_adjacent[where th = th and tk = tk and mrg = mrg and leaves = leaves,
      OF la fd gb' nxt tp sel]
  obtain h' where r: "thresholdByDepth mrg t th tk fd totalSum cur (Branch k leaves) depth h = Inr h'"
    and c: "if tp = NaN \<or> sel = []
       then arrs h' fd = arrs h fd \<and> objs h' = objs h \<and> next_obj h' = next_obj h
       else arrs h' fd = drop_refs sel (arrs h fd) @ [next_obj h]
          \<and> objs h' = (objs h)(next_obj h := stamped (mrg (map (objs h) sel) (aggs t)) tp)
          \<and> next_obj h' = Suc (next_obj h)"
    by auto
  have sub: "mset sel \<subseteq># mset (arrs h fd)"
  proof -
    have "mset sel \<subseteq># mset nxt" by (simp add: sel)
    then show ?thesis using present by (rule subset_mset.order_trans)
  qed
  have nsel: "next_obj h \<notin> set sel"
  proof
    assume "next_obj h \<in> set sel"
    with sub have "next_obj h \<in> set (arrs h fd)"
      by (metis mset_subset_eqD set_mset_mset)
    with fresh show False by auto
  qed
  have 1: "filter (\<lambda>y. y \<notin> set sel) (arrs h' fd) =
        filter (\<lambda>y. y \<notin> set sel) (arrs h fd) @ (if tp = NaN \<or> sel = [] then [] else [next_obj h])"
    using c nsel filter_drop_refs[OF sub] by (simp split: if_splits)
  have 2: "count_list (arrs h' fd) y = count_list (arrs h fd) y"
    if "y < next_obj h" "y \<notin> set sel" for y
  proof -
    have "count_list (filter (\<lambda>y. y \<notin> set sel) (arrs h' fd)) y =
          count_list (filter (\<lambda>y. y \<notin> set sel) (arrs h fd)) y"
      using that unfolding 1 by (simp split: if_splits)
    then show ?thesis using that by (simp add: count_list_filter)
  qed
  have 3: "count_list (arrs h' fd) x = count_list (arrs h fd) x - count_list sel x"
    if "tp \<noteq> NaN" "x \<in> set sel" for x
  proof -
    from that have "\<not> (tp = NaN \<or> sel = [])" by auto
    with c have "arrs h' fd = drop_refs sel (arrs h fd) @ [next_obj h]" by simp
    then show ?thesis using that nsel by (auto simp: count_list_drop_refs[OF sub])
  qed
  from r 1 2 3 show ?thesis by blast
qed

theorem removal_by_identity_witness:
  "objs twin_heap 0 = objs twin_heap 1
   \<and> (\<exists>h'. thresholdByDepth merge_model (scenario_treemap (Fin 1)) (\<lambda>_. Fin 1)
           (\<lambda>r. num_of (get_prop ''v'' r)) 1 (Fin 2) 0 (Branch (JStr ''a'') []) 0 twin_heap
         = Inr h'
       \<and> filter (\<lambda>y. y \<noteq> 1) (arrs h' 1) = [0, 2]
       \<and> count_list (arrs h' 1) 0 = 1 \<and> count_list (arrs h' 1) 1 = 0)"
proof -
  let ?t = "scenario_treemap (Fin 1)"
  let ?tk = "\<lambda>r. num_of (get_prop ''v'' r)"
  have la: "int 0 + 1 = drawDepth ?t" by (simp add: scenario_treemap_simps)
  have fd: "1 < next_arr twin_heap" by (simp add: twin_heap_simps)
  have gb: "0 < length (groupBy ?t)" by (simp add: scenario_treemap_simps)
  have fresh: "\<forall>r\<in>set (arrs twin_heap 1). r < next_obj twin_heap"
    by (simp add: twin_heap_simps)
  have nxt: "[1] = nextOf ?t 0 (JStr ''a'') 0 twin_heap"
    by (simp add: nextOf_def twin_heap_simps scenario_treemap_simps scenario_keys)
  have present: "mset [1] \<subseteq># mset (arrs twin_heap 1)" by (simp add: twin_heap_simps)
  have tp: "Fin 1 = clampPercent ((\<lambda>_. Fin 1) (map (objs twin_heap) [1]))"
    by (simp add: clampPercent_cases)
  have sel: "[1] = filter (\<lambda>x. js_lt (?tk (objs twin_heap x)) (js_mul (Fin 1) (Fin 2))) (rev [1])"
    by (simp add: twin_heap_simps scenario_keys)
  from removal_by_identity[where th = "\<lambda>_. Fin 1" and tk = ?tk
      and mrg = merge_model and leaves = "[]", OF la fd gb fresh nxt present tp sel]
  show ?thesis
    by (auto simp: twin_heap_simps)
qed

text \<open>
  C5.  When the total weight of the dataset is 0: the threshold value is 0 at every branch
  whose fraction is a number; in a run on a grouped tree only records whose weight is
  strictly below 0 lose an occurrence in the returned dataset, and the others keep all of
  theirs; and when no record of the dataset has a weight below 0, on any tree, the call
  returns a copy of the input with the same records in the same order, and creates no
  record.
\<close>

theorem zero_total_no_removals:
  assumes th: "threshold t = Some th"
    and tk: "thresholdKey t = Some tk"
    and wf: "data < next_arr h"
    and gb: "drawDepth t \<le> int (length (groupBy t))"
    and total: "totalSum = d3_sum tk (map (objs h) (arrs h data))"
    and zero: "totalSum = Fin 0"
  shows "(\<forall>p. clampPercent p \<noteq> NaN \<longrightarrow> js_mul (clampPercent p) totalSum = Fin 0)
    \<and> (distinct (map bkey tree) \<and> list_all grouped tree
         \<and> (\<forall>r\<in>set (arrs h data). r < next_obj h) \<longrightarrow>
          (\<exists>fd h'. thresholdFunction mrg t data tree h = Inr (fd, h')
             \<and> (\<forall>x\<in>set (arrs h data).
                   count_list (arrs h' fd) x < count_list (arrs h data) x \<longrightarrow>
                   js_lt (tk (objs h x)) (Fin 0))
             \<and> (\<forall>x\<in>set (arrs h data). \<not> js_lt (tk (objs h x)) (Fin 0) \<longrightarrow>
                   count_list (arrs h' fd) x = count_list (arrs h data) x)))
    \<and> ((\<forall>r\<in>set (arrs h data). \<not> js_lt (tk (objs h r)) (Fin 0)) \<longrightarrow>
          (\<exists>fd h'. thresholdFunction mrg t data tree h = Inr (fd, h')
             \<and> arrs h' fd = arrs h data \<and> arrs h' data = arrs h data
             \<and> objs h' = objs h \<and> next_obj h' = next_obj h))"
proof -
  have 1: "\<forall>p. clampPercent p \<noteq> NaN \<longrightarrow> js_mul (clampPercent p) totalSum = Fin 0"
    using zero by (simp add: js_mul_zero)
  have 2: "\<exists>fd h'. thresholdFunction mrg t data tree h = Inr (fd, h')
             \<and> (\<forall>x\<in>set (arrs h data).
                   count_list (arrs h' fd) x < count_list (arrs h data) x \<longrightarrow>
                   js_lt (tk (objs h x)) (Fin 0))
             \<and> (\<forall>x\<in>set (arrs h data). \<not> js_lt (tk (objs h x)) (Fin 0) \<longrightarrow>
                   count_list (arrs h' fd) x = count_list (arrs h data) x)"
    if dist: "distinct (map bkey tree)" and gr: "list_all grouped tree"
      and refs: "\<forall>r\<in>set (arrs h data). r < next_obj h"
  proof -
    let ?R = "\<lambda>x. list_ex (\<lambda>b. removedBy t th tk totalSum (objs h) 0 (arrs h data) b x) tree"
    from run_counts[OF th tk wf refs gb dist gr total, of mrg]
    obtain fd h' where r: "thresholdFunction mrg t data tree h = Inr (fd, h')"
      and c: "\<forall>x\<in>set (arrs h data). count_list (arrs h' fd) x =
                (if ?R x then 0 else count_list (arrs h data) x)"
      by blast
    have R: "?R x \<Longrightarrow> js_lt (tk (objs h x)) (Fin 0)" for x
      unfolding zero by (auto simp: list_ex_iff dest: removedBy_zero)
    from c R have a: "\<forall>x\<in>set (arrs h data).
        count_list (arrs h' fd) x < count_list (arrs h data) x \<longrightarrow> js_lt (tk (objs h x)) (Fin 0)"
      by (metis less_irrefl)
    from c R have b: "\<forall>x\<in>set (arrs h data). \<not> js_lt (tk (objs h x)) (Fin 0) \<longrightarrow>
        count_list (arrs h' fd) x = count_list (arrs h data) x"
      by metis
    from r a b show ?thesis by blast
  qed
  have 3: "\<exists>fd h'. thresholdFunction mrg t data tree h = Inr (fd, h')
             \<and> arrs h' fd = arrs h data \<and> arrs h' data = arrs h data
             \<and> objs h' = objs h \<and> next_obj h' = next_obj h"
    if nn: "\<forall>r\<in>set (arrs h data). \<not> js_lt (tk (objs h r)) (Fin 0)"
  proof -
    let ?fd = "next_arr h"
    let ?h1 = "h\<lparr>arrs := (arrs h)(?fd := arrs h data), next_arr := Suc ?fd\<rparr>"
    let ?f = "\<lambda>branch h2. thresholdByDepth mrg t th tk ?fd totalSum data branch 0 h2"
    let ?fold = "fold (\<lambda>branch r. case r of Inl e \<Rightarrow> Inl e | Inr h2 \<Rightarrow> ?f branch h2)
                   (rev tree) (Inr ?h1)"
    let ?I = "\<lambda>s::heap. objs s = objs h \<and> next_obj s = next_obj h
                \<and> next_arr ?h1 \<le> next_arr s \<and> (\<forall>a<next_arr ?h1. arrs s a = arrs ?h1 a)"
    have u: "thresholdFunction mrg t data tree h =
        (case ?fold of Inl e \<Rightarrow> Inl e | Inr h3 \<Rightarrow> Inr (?fd, h3))"
      unfolding total by (rule thresholdFunction_unfold[OF th tk])
    have "\<exists>s'. ?fold = Inr s' \<and> ?I s'"
    proof (rule fold_invariant_total[of ?I])
      show "?I ?h1" by simp
    next
      fix x s assume I: "?I s"
      then have fds: "?fd < next_arr s" and ds: "data < next_arr s" using wf by auto
      from I wf have "arrs s data = arrs h data" by simp
      with nn I have nns: "\<forall>r\<in>set (arrs s data). \<not> js_lt (tk (objs s r)) (Fin 0)" by simp
      from tbd_zero_unchanged[OF zero gb fds ds nns, of mrg th x 0]
      obtain s' where s': "?f x s = Inr s'"
        "objs s' = objs s" "next_obj s' = next_obj s" "next_arr s \<le> next_arr s'"
        "\<forall>a<next_arr s. arrs s' a = arrs s a"
        by auto
      have "?I s'" using s'(2-5) I by auto
      with s'(1) show "\<exists>s'. ?f x s = Inr s' \<and> ?I s'" by blast
    qed
    then obtain s' where s': "?fold = Inr s'" "?I s'" by blast
    from s'(2) wf have "arrs s' ?fd = arrs h data \<and> arrs s' data = arrs h data
        \<and> objs s' = objs h \<and> next_obj s' = next_obj h"
      by auto
    with s'(1) show ?thesis unfolding u by auto
  qed
  from 1 2 3 show ?thesis by blast
qed

theorem zero_total_no_removals_witness:
  "js_mul (clampPercent (Fin (1/2))) (Fin 0) = Fin 0
   \<and> (\<exists>fd h'. thresholdFunction merge_model
          ((scenario_treemap (Fin (1/2)))\<lparr>thresholdKey := Some (\<lambda>_. Fin 0)\<rparr>) 0
          scenario_tree scenario_heap = Inr (fd, h')
        \<and> arrs h' fd = [0, 1, 2] \<and> objs h' = objs scenario_heap \<and> next_obj h' = 3)
   \<and> (\<exists>fd h'. thresholdFunction merge_model
          ((scenario_treemap (Fin (1/2)))\<lparr>thresholdKey := Some (\<lambda>r.
              if get_prop ''k'' r = JStr ''b'' then Fin (- 11) else num_of (get_prop ''v'' r))\<rparr>) 0
          scenario_tree scenario_heap = Inr (fd, h')
        \<and> count_list (arrs h' fd) 0 = 1 \<and> count_list (arrs h' fd) 1 = 1)"
proof -
  let ?t = "(scenario_treemap (Fin (1/2)))\<lparr>thresholdKey := Some (\<lambda>_. Fin 0)\<rparr>"
  have th: "threshold ?t = Some (\<lambda>_. Fin (1/2))" by (simp add: scenario_treemap_def)
  have tk: "thresholdKey ?t = Some (\<lambda>_. Fin 0)" by simp
  have wf: "0 < next_arr scenario_heap" by (simp add: scenario_heap_simps)
  have gb: "drawDepth ?t \<le> int (length (groupBy ?t))" by (simp add: scenario_treemap_def)
  have total: "Fin 0 = d3_sum (\<lambda>_. Fin 0) (map (objs scenario_heap) (arrs scenario_heap 0))"
    by (simp add: d3_sum_def scenario_heap_simps)
  have nn: "\<forall>r\<in>set (arrs scenario_heap 0). \<not> js_lt ((\<lambda>_. Fin 0) (objs scenario_heap r)) (Fin 0)"
    by simp
  from zero_total_no_removals[OF th tk wf gb total refl, of scenario_tree merge_model] nn
  have a: "js_mul (clampPercent (Fin (1/2))) (Fin 0) = Fin 0"
    and b: "\<exists>fd h'. thresholdFunction merge_model ?t 0 scenario_tree scenario_heap = Inr (fd, h')
             \<and> arrs h' fd = arrs scenario_heap 0 \<and> arrs h' 0 = arrs scenario_heap 0
             \<and> objs h' = objs scenario_heap \<and> next_obj h' = next_obj scenario_heap"
    by (simp add: clampPercent_cases, blast)
  let ?w = "\<lambda>r. if get_prop ''k'' r = JStr ''b'' then Fin (- 11) else num_of (get_prop ''v'' r)"
  let ?u = "(scenario_treemap (Fin (1/2)))\<lparr>thresholdKey := Some ?w\<rparr>"
  have th': "threshold ?u = Some (\<lambda>_. Fin (1/2))" by (simp add: scenario_treemap_def)
  have tk': "thresholdKey ?u = Some ?w" by simp
  have gb': "drawDepth ?u \<le> int (length (groupBy ?u))" by (simp add: scenario_treemap_def)
  have total': "Fin 0 = d3_sum ?w (map (objs scenario_heap) (arrs scenario_heap 0))"
    by (simp add: d3_sum_def scenario_heap_def scenario_keys)
  have g: "distinct (map bkey scenario_tree) \<and> list_all grouped scenario_tree
         \<and> (\<forall>r\<in>set (arrs scenario_heap 0). r < next_obj scenario_heap)"
    by (simp add: scenario_tree_def scenario_heap_simps)
  from zero_total_no_removals[OF th' tk' wf gb' total' refl, of scenario_tree merge_model] g
  obtain fd h' where r: "thresholdFunction merge_model ?u 0 scenario_tree scenario_heap = Inr (fd, h')"
    and k: "\<forall>x\<in>set (arrs scenario_heap 0). \<not> js_lt (?w (objs scenario_heap x)) (Fin 0) \<longrightarrow>
                   count_list (arrs h' fd) x = count_list (arrs scenario_heap 0) x"
    by blast
  from k have "count_list (arrs h' fd) 0 = 1 \<and> count_list (arrs h' fd) 1 = 1"
    by (simp add: scenario_heap_def scenario_keys)
  with r have c: "\<exists>fd h'. thresholdFunction merge_model ?u 0 scenario_tree scenario_heap = Inr (fd, h')
        \<and> count_list (arrs h' fd) 0 = 1 \<and> count_list (arrs h' fd) 1 = 1"
    by blast
  from b have b': "\<exists>fd h'. thresholdFunction merge_model ?t 0 scenario_tree scenario_heap
          = Inr (fd, h')
        \<and> arrs h' fd = [0, 1, 2] \<and> objs h' = objs scenario_heap \<and> next_obj h' = 3"
    by (auto simp: scenario_heap_simps)
  from a b' c show ?thesis by blast
qed

text \<open>
  C9.  With a threshold function and a weight accessor, \<open>_thresholdFunction\<close> does not
  change the caller's array: whenever it returns, the returned array is a new one, at an
  address other than that of \<open>data\<close>, and \<open>data\<close> and every other array that
  existed hold the same records in the same order as before.  It does return when
  \<open>groupBy\<close> has an accessor for every depth below \<open>drawDepth\<close>.
\<close>

theorem input_not_mutated:
  assumes th: "threshold t = Some th"
    and tk: "thresholdKey t = Some tk"
    and wf: "data < next_arr h"
  shows "(\<forall>fd h'. thresholdFunction mrg t data tree h = Inr (fd, h') \<longrightarrow>
            fd \<noteq> data \<and> fd = next_arr h \<and> arrs h' data = arrs h data
          \<and> (\<forall>a<next_arr h. arrs h' a = arrs h a))
       \<and> (drawDepth t \<le> int (length (groupBy t)) \<longrightarrow>
            (\<exists>fd h'. thresholdFunction mrg t data tree h = Inr (fd, h')))"
proof -
  let ?fd = "next_arr h"
  let ?h1 = "h\<lparr>arrs := (arrs h)(?fd := arrs h data), next_arr := Suc ?fd\<rparr>"
  let ?ts = "d3_sum tk (map (objs h) (arrs h data))"
  let ?f = "\<lambda>branch h2. thresholdByDepth mrg t th tk ?fd ?ts data branch 0 h2"
  let ?fold = "fold (\<lambda>branch r. case r of Inl e \<Rightarrow> Inl e | Inr h2 \<Rightarrow> ?f branch h2)
                 (rev tree) (Inr ?h1)"
  let ?I = "\<lambda>s::heap. next_arr ?h1 \<le> next_arr s \<and> (\<forall>a<?fd. arrs s a = arrs h a)"
  have u: "thresholdFunction mrg t data tree h =
      (case ?fold of Inl e \<Rightarrow> Inl e | Inr h3 \<Rightarrow> Inr (?fd, h3))"
    by (rule thresholdFunction_unfold[OF th tk])
  have I1: "?I ?h1" by simp
  have step: "?I s'" if "?I s" "?f b s = Inr s'" for b s s'
  proof -
    from that(1) have "?fd < next_arr s" by simp
    from tbd_frame[OF that(2) this] that(1) show ?thesis by auto
  qed
  have a: "fd \<noteq> data \<and> fd = ?fd \<and> arrs h' data = arrs h data \<and> (\<forall>a<?fd. arrs h' a = arrs h a)"
    if r: "thresholdFunction mrg t data tree h = Inr (fd, h')" for fd h'
  proof -
    from r u have fo: "?fold = Inr h'" and fd: "fd = ?fd"
      by (auto split: sum.splits)
    have "?I h'"
      by (rule fold_invariant_partial[OF fo, of ?I]) (use I1 step in blast)+
    with wf fd show ?thesis by auto
  qed
  have b: "\<exists>fd h'. thresholdFunction mrg t data tree h = Inr (fd, h')"
    if gb: "drawDepth t \<le> int (length (groupBy t))"
  proof -
    have "\<exists>s'. ?fold = Inr s' \<and> ?I s'"
    proof (rule fold_invariant_total[of ?I])
      show "?I ?h1" by (rule I1)
    next
      fix x s assume I: "?I s"
      then have "?fd < next_arr s" by simp
      from tbd_total[OF gb this, of mrg th tk ?ts data x 0]
      obtain s' where s': "?f x s = Inr s'" by auto
      with step[OF I s'] show "\<exists>s'. ?f x s = Inr s' \<and> ?I s'" by blast
    qed
    then show ?thesis unfolding u by auto
  qed
  from a b show ?thesis by blast
qed

theorem input_not_mutated_witness:
  "\<exists>fd h'. thresholdFunction merge_model (scenario_treemap (Fin (1/2))) 0 scenario_tree
       scenario_heap = Inr (fd, h')
     \<and> fd \<noteq> 0 \<and> arrs h' 0 = [0, 1, 2]"
proof -
  let ?t = "scenario_treemap (Fin (1/2))"
  have th: "threshold ?t = Some (\<lambda>_. Fin (1/2))" by (simp add: scenario_treemap_def)
  have tk: "thresholdKey ?t = Some (\<lambda>r. num_of (get_prop ''v'' r))"
    by (simp add: scenario_treemap_def)
  have wf: "0 < next_arr scenario_heap" by (simp add: scenario_heap_simps)
  have gb: "drawDepth ?t \<le> int (length (groupBy ?t))" by (simp add: scenario_treemap_def)
  from input_not_mutated[OF th tk wf, of merge_model scenario_tree] gb
  show ?thesis by (auto simp: scenario_heap_simps)
qed

end
